theory Spec2Isabelle
  imports Main "HOL-Library.Multiset" "HOL-Library.List_Lexorder" "HOL-Library.Char_ord"
begin

section \<open>Data model (src/src/App.tsx, lines 17-35)\<close>

text \<open>
  \<^verbatim>\<open>type Gender = "Male" | "Female" | "Other"\<close>,
  \<^verbatim>\<open>type Skill = "Novice" | "Intermediate" | "Advance"\<close> and the three values of the
  \<^verbatim>\<open>status\<close> field of a player (\<^verbatim>\<open>"pool" | "ready" | "playing"\<close>; the spec calls them
  Pool, Staged and Active).
\<close>

datatype gender = Male | Female | Other

datatype skill = Novice | Intermediate | Advance

datatype status = Pool | Ready | Playing

text \<open>
  \<^verbatim>\<open>type Player\<close>. The field \<^verbatim>\<open>id\<close> is called \<open>pid\<close> here (\<open>id\<close> is the identity
  function of HOL). \<^verbatim>\<open>matches\<close> is a JavaScript number that starts at 0 and only ever
  grows by 1; it is an \<open>int\<close> here.
\<close>

record player =
  pid :: string
  name :: string
  gender :: gender
  skill :: skill
  matches :: int
  status :: status

text \<open>
  \<^verbatim>\<open>type Court\<close>. \<^verbatim>\<open>startedAt?: number | null\<close> is an \<open>int option\<close>: \<open>None\<close> stands
  for \<^verbatim>\<open>null\<close> (and for an absent field).
\<close>

record court =
  cid :: string
  cname :: string
  playingIds :: "string list"
  startedAt :: "int option"

text \<open>
  The three pieces of React state the engine functions read and write
  (\<^verbatim>\<open>players\<close>, \<^verbatim>\<open>courts\<close>, \<^verbatim>\<open>readySets\<close>, lines 133-140). Every handler of the
  component runs to completion on the rendered state, so a handler is a function from
  state to state; a sequence of \<^verbatim>\<open>setX((prev) => ...)\<close> calls is the composition of the
  updates. The state of the dialogs (\<^verbatim>\<open>editTargetId\<close>, \<^verbatim>\<open>swapIndex\<close>, ...), the flags
  \<^verbatim>\<open>startArmed\<close> and \<^verbatim>\<open>firstMatchDone\<close> and the clock \<^verbatim>\<open>now\<close> belong to the
  presentation and are left out: no engine function reads them.
\<close>

record state =
  players :: "player list"
  courts :: "court list"
  readySets :: "string list list"

section \<open>Pure helpers (lines 62-117)\<close>

text \<open>
  \<^verbatim>\<open>shuffleArr\<close> (lines 69-76), the Fisher-Yates loop
  \<^verbatim>\<open>for (let i = a.length - 1; i > 0; i--)\<close>. The draw
  \<^verbatim>\<open>Math.floor(Math.random() * (i + 1))\<close> is some index in \<open>0..i\<close>; the source of
  randomness is the parameter \<open>rnd\<close>, which gives the draw of iteration \<open>i\<close>, reduced
  into that range. The destructuring swap reads both cells before it writes. On the
  empty array the loop starts at \<open>-1\<close> and does nothing; here \<open>length arr - 1\<close> is 0 and
  \<open>shuffleLoop\<close> does nothing either.
\<close>

fun shuffleLoop :: "(nat \<Rightarrow> nat) \<Rightarrow> 'a list \<Rightarrow> nat \<Rightarrow> 'a list" where
  "shuffleLoop rnd a 0 = a"
| "shuffleLoop rnd a (Suc k) =
     (let i = Suc k; j = rnd i mod (i + 1)
      in shuffleLoop rnd (a[i := a ! j, j := a ! i]) k)"

definition shuffleArr :: "(nat \<Rightarrow> nat) \<Rightarrow> 'a list \<Rightarrow> 'a list" where
  "shuffleArr rnd arr = shuffleLoop rnd arr (length arr - 1)"

text \<open>\<^verbatim>\<open>SKILL_ORDER\<close> (lines 78-82).\<close>

fun SKILL_ORDER :: "skill \<Rightarrow> int" where
  "SKILL_ORDER Novice = 1"
| "SKILL_ORDER Intermediate = 2"
| "SKILL_ORDER Advance = 3"

text \<open>
  \<^verbatim>\<open>sets[index] || []\<close>: an index past the end reads \<^verbatim>\<open>undefined\<close>, which the
  source replaces by the empty array. Indices are array positions, modelled as \<open>nat\<close>.
\<close>

definition setAt :: "'a list list \<Rightarrow> nat \<Rightarrow> 'a list" where
  "setAt sets i = (if i < length sets then sets ! i else [])"

text \<open>
  \<^verbatim>\<open>copy.splice(index, 1)\<close>: removes the element at \<open>index\<close>, nothing when the index
  is past the end.
\<close>

definition splice1 :: "'a list \<Rightarrow> nat \<Rightarrow> 'a list" where
  "splice1 xs i = take i xs @ drop (Suc i) xs"

text \<open>\<^verbatim>\<open>shiftSetsAfterAssign\<close> (lines 93-99).\<close>

definition shiftSetsAfterAssign :: "string list list \<Rightarrow> nat \<Rightarrow> string list list" where
  "shiftSetsAfterAssign sets index =
     (let copy = splice1 sets index;
          copy = copy @ [[]]
      in if length copy = 0 then copy @ [[]] else copy)"

text \<open>
  \<^verbatim>\<open>distributeFill\<close> (lines 101-117). \<open>fillSet\<close> is the inner \<^verbatim>\<open>while\<close> loop on one
  set: its state is the set \<^verbatim>\<open>res[i]\<close>, the queue and \<^verbatim>\<open>used\<close>. \<open>fillLoop\<close> is the
  outer \<^verbatim>\<open>for\<close> loop over the sets from index \<open>i\<close> on.
\<close>

fun fillSet :: "nat \<Rightarrow> string list \<Rightarrow> string list \<Rightarrow> string list
    \<Rightarrow> string list \<times> string list \<times> string list" where
  "fillSet capacity s [] used = (s, [], used)"
| "fillSet capacity s (x # queueIds) used =
     (if length s < capacity
      then fillSet capacity (s @ [x]) queueIds (used @ [x])
      else (s, x # queueIds, used))"

fun fillLoop :: "nat \<Rightarrow> string list list \<Rightarrow> string list \<Rightarrow> string list
    \<Rightarrow> string list list \<times> string list" where
  "fillLoop capacity [] queueIds used = ([], used)"
| "fillLoop capacity (s # rest) queueIds used =
     (case fillSet capacity s queueIds used of
        (s', queueIds', used') \<Rightarrow>
          (case fillLoop capacity rest queueIds' used' of
             (rest', used'') \<Rightarrow> (s' # rest', used'')))"

definition distributeFill :: "string list list \<Rightarrow> string list \<Rightarrow> nat
    \<Rightarrow> string list list \<times> string list" where
  "distributeFill sets queueIds capacity =
     (case fillLoop capacity sets queueIds [] of
        (res, used) \<Rightarrow> (if length res = 0 then res @ [[]] else res, used))"

text \<open>
  \<^verbatim>\<open>Array.prototype.findIndex\<close>, with \<open>None\<close> for the result \<^verbatim>\<open>-1\<close>, and
  \<^verbatim>\<open>Array.prototype.find\<close>, which is \<^const>\<open>find\<close> of HOL.
\<close>

fun findIndex :: "('a \<Rightarrow> bool) \<Rightarrow> 'a list \<Rightarrow> nat option" where
  "findIndex P [] = None"
| "findIndex P (x # xs) = (if P x then Some 0 else map_option Suc (findIndex P xs))"

text \<open>
  \<^verbatim>\<open>Array.prototype.sort\<close> with a comparator. ECMAScript requires the sort to be
  stable, and a stable sort has one result for a consistent comparator: it is modelled
  as the stable insertion sort. \<open>cmp a b \<le> 0\<close> means that \<open>a\<close> may stay before \<open>b\<close>.
\<close>

fun insertBy :: "('a \<Rightarrow> 'a \<Rightarrow> int) \<Rightarrow> 'a \<Rightarrow> 'a list \<Rightarrow> 'a list" where
  "insertBy cmp x [] = [x]"
| "insertBy cmp x (y # ys) = (if cmp x y \<le> 0 then x # y # ys else y # insertBy cmp x ys)"

definition sortBy :: "('a \<Rightarrow> 'a \<Rightarrow> int) \<Rightarrow> 'a list \<Rightarrow> 'a list" where
  "sortBy cmp xs = foldr (insertBy cmp) xs []"

text \<open>
  A decimal numeral, for the template string \<^verbatim>\<open>`Court ${courts.length + 1}`\<close>.
\<close>

fun showNat :: "nat \<Rightarrow> string" where
  "showNat n =
     (if n < 10 then [''0123456789'' ! n]
      else showNat (n div 10) @ [''0123456789'' ! (n mod 10)])"

section \<open>The handlers of the component (lines 187-340)\<close>

text \<open>
  \<^verbatim>\<open>confirmAddPlayer\<close> (lines 193-206). \<open>newId\<close> is the result of \<^verbatim>\<open>uid("p")\<close> and
  \<open>nm\<close> the trimmed name of the form.
\<close>

definition confirmAddPlayer :: "string \<Rightarrow> string \<Rightarrow> gender \<Rightarrow> skill \<Rightarrow> state \<Rightarrow> state" where
  "confirmAddPlayer newId nm g sk s =
     (if nm = [] then s
      else s\<lparr>players :=
             \<lparr>pid = newId, name = nm, gender = g, skill = sk, matches = 0, status = Pool\<rparr>
             # players s\<rparr>)"

text \<open>The three \<^verbatim>\<open>onChange\<close> handlers of the edit dialog (lines 651-664).\<close>

definition editName :: "string \<Rightarrow> string \<Rightarrow> state \<Rightarrow> state" where
  "editName i v s = s\<lparr>players := map (\<lambda>pp. if pid pp = i then pp\<lparr>name := v\<rparr> else pp) (players s)\<rparr>"

definition editGender :: "string \<Rightarrow> gender \<Rightarrow> state \<Rightarrow> state" where
  "editGender i v s = s\<lparr>players := map (\<lambda>pp. if pid pp = i then pp\<lparr>gender := v\<rparr> else pp) (players s)\<rparr>"

definition editSkill :: "string \<Rightarrow> skill \<Rightarrow> state \<Rightarrow> state" where
  "editSkill i v s = s\<lparr>players := map (\<lambda>pp. if pid pp = i then pp\<lparr>skill := v\<rparr> else pp) (players s)\<rparr>"

text \<open>\<^verbatim>\<open>deletePlayer\<close> (lines 218-230).\<close>

definition deletePlayer :: "string \<Rightarrow> state \<Rightarrow> state" where
  "deletePlayer i s =
     s\<lparr>readySets := map (filter (\<lambda>pid'. pid' \<noteq> i)) (readySets s),
       courts := map (\<lambda>c. if i \<in> set (playingIds c)
                           then c\<lparr>playingIds := filter (\<lambda>x. x \<noteq> i) (playingIds c)\<rparr>
                           else c) (courts s),
       players := filter (\<lambda>p. pid p \<noteq> i) (players s)\<rparr>"

text \<open>\<^verbatim>\<open>addToReady\<close> (lines 233-242).\<close>

definition addToReady :: "string \<Rightarrow> state \<Rightarrow> state" where
  "addToReady i s =
     (case findIndex (\<lambda>g. length g < 4) (readySets s) of
        None \<Rightarrow> s
      | Some targetIndex \<Rightarrow>
          s\<lparr>players := map (\<lambda>p. if pid p = i then p\<lparr>status := Ready\<rparr> else p) (players s),
            readySets := (readySets s)[targetIndex := readySets s ! targetIndex @ [i]]\<rparr>)"

text \<open>
  \<^verbatim>\<open>swapReadyWithPool\<close> (lines 251-261). \<^verbatim>\<open>if (!outId) return\<close> leaves when the slot
  is past the end of the set (\<^verbatim>\<open>undefined\<close>) and when the id there is the empty
  string. \<open>mapIdx\<close> is \<^verbatim>\<open>Array.prototype.map\<close> with the index argument. After the
  guard \<open>setIndex\<close> is inside the array, so the assignment \<^verbatim>\<open>copy[setIndex] = ...\<close>
  never extends it.
\<close>

definition mapIdx :: "('a \<Rightarrow> nat \<Rightarrow> 'b) \<Rightarrow> 'a list \<Rightarrow> 'b list" where
  "mapIdx f xs = map (\<lambda>(idx, x). f x idx) (enumerate 0 xs)"

definition swapReadyWithPool :: "nat \<Rightarrow> nat \<Rightarrow> string \<Rightarrow> state \<Rightarrow> state" where
  "swapReadyWithPool setIndex readyIndex poolPlayerId s =
     (let g = setAt (readySets s) setIndex
      in if \<not> (readyIndex < length g \<and> g ! readyIndex \<noteq> [])
         then s
         else
           (let outId = g ! readyIndex
            in s\<lparr>players :=
                   map (\<lambda>p. if pid p = poolPlayerId then p\<lparr>status := Ready\<rparr> else p)
                     (map (\<lambda>p. if pid p = outId then p\<lparr>status := Pool\<rparr> else p) (players s)),
                 readySets :=
                   (readySets s)[setIndex :=
                      mapIdx (\<lambda>x idx. if idx = readyIndex then poolPlayerId else x)
                        (setAt (readySets s) setIndex)]\<rparr>))"

text \<open>
  \<^verbatim>\<open>fillAllSets\<close> (lines 275-291). \<open>comparePlayers\<close> is the comparator of the
  \<^verbatim>\<open>sort\<close> call. \<^verbatim>\<open>String.prototype.localeCompare\<close> belongs to the host; it is the
  parameter \<open>lc\<close> (negative, zero or positive).
\<close>

definition comparePlayers :: "(string \<Rightarrow> string \<Rightarrow> int) \<Rightarrow> player \<Rightarrow> player \<Rightarrow> int" where
  "comparePlayers lc a b =
     (if matches a \<noteq> matches b then matches a - matches b
      else if SKILL_ORDER (skill a) \<noteq> SKILL_ORDER (skill b)
           then SKILL_ORDER (skill a) - SKILL_ORDER (skill b)
      else lc (name a) (name b))"

definition selectionQueue :: "(string \<Rightarrow> string \<Rightarrow> int) \<Rightarrow> (nat \<Rightarrow> nat) \<Rightarrow> state \<Rightarrow> player list" where
  "selectionQueue lc rnd s =
     (let pool = filter (\<lambda>p. status p = Pool) (players s);
          anyMatches = (\<exists>p \<in> set (players s). matches p > 0)
      in if anyMatches then sortBy (comparePlayers lc) pool else shuffleArr rnd pool)"

definition fillAllSets :: "(string \<Rightarrow> string \<Rightarrow> int) \<Rightarrow> (nat \<Rightarrow> nat) \<Rightarrow> state \<Rightarrow> state" where
  "fillAllSets lc rnd s =
     (case distributeFill (readySets s) (map pid (selectionQueue lc rnd s)) 4 of
        (newSets, used) \<Rightarrow>
          if length used = 0 then s
          else s\<lparr>readySets := newSets,
                 players := map (\<lambda>p. if pid p \<in> set used then p\<lparr>status := Ready\<rparr> else p)
                              (players s)\<rparr>)"

text \<open>The "create another set" button (line 472).\<close>

definition addSet :: "state \<Rightarrow> state" where
  "addSet s = s\<lparr>readySets := readySets s @ [[]]\<rparr>"

text \<open>\<^verbatim>\<open>addCourt\<close> (lines 294-298); \<open>newId\<close> is the result of \<^verbatim>\<open>uid("c")\<close>.\<close>

definition addCourt :: "string \<Rightarrow> state \<Rightarrow> state" where
  "addCourt newId s =
     s\<lparr>courts := courts s @
         [\<lparr>cid = newId, cname = ''Court '' @ showNat (length (courts s) + 1),
           playingIds = [], startedAt = None\<rparr>]\<rparr>"

text \<open>\<^verbatim>\<open>removeCourt\<close> (lines 300-308).\<close>

definition removeCourt :: "string \<Rightarrow> state \<Rightarrow> state" where
  "removeCourt i s =
     s\<lparr>players :=
         (case find (\<lambda>c. cid c = i) (courts s) of
            None \<Rightarrow> players s
          | Some court \<Rightarrow>
              if length (playingIds court) \<noteq> 0
              then map (\<lambda>p. if pid p \<in> set (playingIds court)
                            then p\<lparr>status := Pool, matches := matches p + 1\<rparr> else p) (players s)
              else players s),
       courts := filter (\<lambda>c. cid c \<noteq> i) (courts s)\<rparr>"

text \<open>
  \<^verbatim>\<open>assignSetToCourt\<close> (lines 310-317); \<open>now\<close> is the result of \<^verbatim>\<open>Date.now()\<close>.
\<close>

definition assignSetToCourt :: "nat \<Rightarrow> string \<Rightarrow> int \<Rightarrow> state \<Rightarrow> state" where
  "assignSetToCourt setIndex courtId now s =
     (let ids = setAt (readySets s) setIndex
      in if length ids \<noteq> 4 then s
         else s\<lparr>courts := map (\<lambda>c. if cid c = courtId
                                    then c\<lparr>playingIds := ids, startedAt := Some now\<rparr>
                                    else c) (courts s),
                players := map (\<lambda>p. if pid p \<in> set ids then p\<lparr>status := Playing\<rparr> else p)
                             (players s),
                readySets := shiftSetsAfterAssign (readySets s) setIndex\<rparr>)"

text \<open>\<^verbatim>\<open>removeSet\<close> (lines 319-330).\<close>

definition removeSet :: "nat \<Rightarrow> state \<Rightarrow> state" where
  "removeSet setIndex s =
     (let current = setAt (readySets s) setIndex;
          copy = splice1 (readySets s) setIndex
      in s\<lparr>players :=
             (if length current \<noteq> 0
              then map (\<lambda>p. if pid p \<in> set current then p\<lparr>status := Pool\<rparr> else p) (players s)
              else players s),
           readySets := (if length copy = 0 then copy @ [[]] else copy)\<rparr>)"

text \<open>\<^verbatim>\<open>endMatch\<close> (lines 332-340).\<close>

definition endMatch :: "string \<Rightarrow> state \<Rightarrow> state" where
  "endMatch courtId s =
     (case find (\<lambda>c. cid c = courtId) (courts s) of
        None \<Rightarrow> s
      | Some court \<Rightarrow>
          (let ids = playingIds court
           in s\<lparr>players :=
                  (if length ids \<noteq> 0
                   then map (\<lambda>p. if pid p \<in> set ids
                                 then p\<lparr>matches := matches p + 1, status := Pool\<rparr> else p)
                          (players s)
                   else players s),
                courts := map (\<lambda>c. if cid c = courtId
                                    then c\<lparr>playingIds := [], startedAt := None\<rparr> else c)
                            (courts s)\<rparr>))"

text \<open>
  The sanitizing effect (lines 183-185). React runs it after a change of \<^verbatim>\<open>players\<close>;
  here it is an operation of its own. So is the automatic call of \<^verbatim>\<open>fillAllSets\<close> of
  the effect of lines 176-180.
\<close>

definition sanitize :: "state \<Rightarrow> state" where
  "sanitize s =
     s\<lparr>readySets := map (filter (\<lambda>i. \<exists>p \<in> set (players s). pid p = i)) (readySets s)\<rparr>"

section \<open>Sequences of operations\<close>

text \<open>
  The command surface: one constructor for each handler, with the values the handler
  takes from its caller or from the host (fresh ids, the clock, the random draws).
\<close>

datatype op =
    ConfirmAddPlayer string string gender skill
  | EditName string string
  | EditGender string gender
  | EditSkill string skill
  | DeletePlayer string
  | AddToReady string
  | SwapReadyWithPool nat nat string
  | FillAllSets "nat \<Rightarrow> nat"
  | AddSet
  | RemoveSet nat
  | AddCourt string
  | RemoveCourt string
  | AssignSetToCourt nat string int
  | EndMatch string
  | Sanitize

fun step :: "(string \<Rightarrow> string \<Rightarrow> int) \<Rightarrow> op \<Rightarrow> state \<Rightarrow> state" where
  "step lc (ConfirmAddPlayer i nm g sk) s = confirmAddPlayer i nm g sk s"
| "step lc (EditName i v) s = editName i v s"
| "step lc (EditGender i v) s = editGender i v s"
| "step lc (EditSkill i v) s = editSkill i v s"
| "step lc (DeletePlayer i) s = deletePlayer i s"
| "step lc (AddToReady i) s = addToReady i s"
| "step lc (SwapReadyWithPool si ri i) s = swapReadyWithPool si ri i s"
| "step lc (FillAllSets rnd) s = fillAllSets lc rnd s"
| "step lc AddSet s = addSet s"
| "step lc (RemoveSet si) s = removeSet si s"
| "step lc (AddCourt i) s = addCourt i s"
| "step lc (RemoveCourt i) s = removeCourt i s"
| "step lc (AssignSetToCourt si i now) s = assignSetToCourt si i now s"
| "step lc (EndMatch i) s = endMatch i s"
| "step lc Sanitize s = sanitize s"

text \<open>
  The state of a fresh installation: the fallbacks of \<^verbatim>\<open>loadLS\<close> (lines 133-140).
\<close>

definition initState :: state where
  "initState = \<lparr>players = [], courts = [], readySets = [[]]\<rparr>"

fun run :: "(string \<Rightarrow> string \<Rightarrow> int) \<Rightarrow> op list \<Rightarrow> state \<Rightarrow> state" where
  "run lc [] s = s"
| "run lc (x # xs) s = run lc xs (step lc x s)"

section \<open>Invariants and guarded sequences\<close>

text \<open>
  The occupancy property of the stations: every station has no occupant or four.
\<close>

definition stationsOk :: "state \<Rightarrow> bool" where
  "stationsOk s =
     (\<forall>c \<in> set (courts s). length (playingIds c) = 0 \<or> length (playingIds c) = 4)"

text \<open>
  \<open>deletesOccupant x s\<close>: the operation deletes a participant whose id is in the occupancy
  list of a station. \<open>noOccupantDeleted\<close>: no operation of the sequence does so in the
  state it is applied to.
\<close>

fun deletesOccupant :: "op \<Rightarrow> state \<Rightarrow> bool" where
  "deletesOccupant (DeletePlayer i) s = (\<exists>c \<in> set (courts s). i \<in> set (playingIds c))"
| "deletesOccupant x s = False"

fun noOccupantDeleted :: "(string \<Rightarrow> string \<Rightarrow> int) \<Rightarrow> op list \<Rightarrow> state \<Rightarrow> bool" where
  "noOccupantDeleted lc [] s = True"
| "noOccupantDeleted lc (x # xs) s =
     (\<not> deletesOccupant x s \<and> noOccupantDeleted lc xs (step lc x s))"

text \<open>
  The status consistency of the spec, word for word: the number of groups, and of
  stations, that hold the id of a participant.
\<close>

definition groupCount :: "string \<Rightarrow> string list list \<Rightarrow> nat" where
  "groupCount i sets = length (filter (\<lambda>g. i \<in> set g) sets)"

definition courtCount :: "string \<Rightarrow> court list \<Rightarrow> nat" where
  "courtCount i cs = length (filter (\<lambda>c. i \<in> set (playingIds c)) cs)"

definition statusConsistent :: "state \<Rightarrow> bool" where
  "statusConsistent s =
     (\<forall>p \<in> set (players s).
        (status p = Ready \<longleftrightarrow> groupCount (pid p) (readySets s) = 1) \<and>
        (status p = Playing \<longleftrightarrow> courtCount (pid p) (courts s) = 1) \<and>
        (status p = Pool \<longleftrightarrow>
           groupCount (pid p) (readySets s) = 0 \<and> courtCount (pid p) (courts s) = 0))"

text \<open>
  What the presentation layer offers. The engine functions do not check their
  arguments; the component only calls them as follows:
  \<^item> a new participant or station gets the result of \<^verbatim>\<open>uid\<close>, a fresh id
    (lines 197 and 296);
  \<^item> \<^verbatim>\<open>addToReady\<close> is the button of a row of the pool list, so its argument is the id
    of a participant with status pool (lines 161 and 437-441);
  \<^item> \<^verbatim>\<open>swapReadyWithPool\<close> gets the id of a participant of the pool list
    (lines 161 and 689-693);
  \<^item> \<^verbatim>\<open>assignSetToCourt\<close> gets the id of one of the idle stations (lines 703 and 750).
  The other handlers take any argument.
\<close>

fun offered :: "op \<Rightarrow> state \<Rightarrow> bool" where
  "offered (ConfirmAddPlayer i nm g sk) s = (i \<notin> set (map pid (players s)))"
| "offered (AddToReady i) s = (\<exists>p \<in> set (players s). pid p = i \<and> status p = Pool)"
| "offered (SwapReadyWithPool si ri i) s =
     (\<exists>p \<in> set (players s). pid p = i \<and> status p = Pool)"
| "offered (AddCourt i) s = (i \<notin> set (map cid (courts s)))"
| "offered (AssignSetToCourt si i now) s =
     (\<exists>c \<in> set (courts s). cid c = i \<and> playingIds c = [])"
| "offered x s = True"

fun allOffered :: "(string \<Rightarrow> string \<Rightarrow> int) \<Rightarrow> op list \<Rightarrow> state \<Rightarrow> bool" where
  "allOffered lc [] s = True"
| "allOffered lc (x # xs) s = (offered x s \<and> allOffered lc xs (step lc x s))"

text \<open>
  The invariant behind the status consistency: ids of participants and of stations are
  unique, no id is twice in the groups or twice on the stations, the ids in the groups
  are those of the participants with status ready, and the ids on the stations are
  those of the participants with status playing.
\<close>

definition idsWith :: "status \<Rightarrow> player list \<Rightarrow> string set" where
  "idsWith st ps = pid ` {p \<in> set ps. status p = st}"

definition wellFormed :: "state \<Rightarrow> bool" where
  "wellFormed s =
     (distinct (map pid (players s)) \<and>
      distinct (map cid (courts s)) \<and>
      distinct (concat (readySets s)) \<and>
      distinct (concat (map playingIds (courts s))) \<and>
      set (concat (readySets s)) = idsWith Ready (players s) \<and>
      set (concat (map playingIds (courts s))) = idsWith Playing (players s))"

section \<open>Concrete states used in the examples\<close>

definition mkPlayer :: "string \<Rightarrow> string \<Rightarrow> skill \<Rightarrow> int \<Rightarrow> status \<Rightarrow> player" where
  "mkPlayer i nm sk m st =
     \<lparr>pid = i, name = nm, gender = Other, skill = sk, matches = m, status = st\<rparr>"

text \<open>One participant, already staged in the only group.\<close>

definition exStaged :: state where
  "exStaged =
     \<lparr>players = [mkPlayer ''p1'' ''Ann'' Novice 0 Ready],
      courts = [],
      readySets = [[''p1'']]\<rparr>"

text \<open>Two participants staged in the same group.\<close>

definition exPair :: state where
  "exPair =
     \<lparr>players = [mkPlayer ''p2'' ''Bob'' Novice 0 Ready, mkPlayer ''p1'' ''Ann'' Novice 0 Ready],
      courts = [],
      readySets = [[''p1'', ''p2'']]\<rparr>"

text \<open>One participant staged, one in the pool.\<close>

definition exSwap :: state where
  "exSwap =
     \<lparr>players = [mkPlayer ''p2'' ''Bob'' Novice 0 Pool, mkPlayer ''p1'' ''Ann'' Novice 0 Ready],
      courts = [],
      readySets = [[''p1'']]\<rparr>"

text \<open>A full first group, a partial second group and one idle station.\<close>

definition exFull :: state where
  "exFull =
     \<lparr>players = [mkPlayer ''p5'' ''Eve'' Novice 0 Ready, mkPlayer ''p4'' ''Dan'' Novice 0 Ready,
                 mkPlayer ''p3'' ''Cid'' Novice 0 Ready, mkPlayer ''p2'' ''Bob'' Novice 0 Ready,
                 mkPlayer ''p1'' ''Ann'' Novice 0 Ready],
      courts = [\<lparr>cid = ''c1'', cname = ''Court 1'', playingIds = [], startedAt = None\<rparr>],
      readySets = [[''p1'', ''p2'', ''p3'', ''p4''], [''p5'']]\<rparr>"

text \<open>
  A station with a session in progress and one participant waiting in the second group:
  \<open>exFull\<close> after its first group was assigned to the station at time 100.
\<close>

definition exActive :: state where
  "exActive =
     \<lparr>players = [mkPlayer ''p5'' ''Eve'' Novice 0 Ready, mkPlayer ''p4'' ''Dan'' Novice 0 Playing,
                 mkPlayer ''p3'' ''Cid'' Novice 0 Playing, mkPlayer ''p2'' ''Bob'' Novice 0 Playing,
                 mkPlayer ''p1'' ''Ann'' Novice 0 Playing],
      courts = [\<lparr>cid = ''c1'', cname = ''Court 1'',
                 playingIds = [''p1'', ''p2'', ''p3'', ''p4''], startedAt = Some 100\<rparr>],
      readySets = [[''p5''], []]\<rparr>"

text \<open>
  A busy station and a second full group: four participants play on the station, four
  others are staged.
\<close>

definition exBusy :: state where
  "exBusy =
     \<lparr>players = [mkPlayer ''p8'' ''Hal'' Novice 0 Ready, mkPlayer ''p7'' ''Gus'' Novice 0 Ready,
                 mkPlayer ''p6'' ''Fay'' Novice 0 Ready, mkPlayer ''p5'' ''Eve'' Novice 0 Ready,
                 mkPlayer ''p4'' ''Dan'' Novice 0 Playing, mkPlayer ''p3'' ''Cid'' Novice 0 Playing,
                 mkPlayer ''p2'' ''Bob'' Novice 0 Playing, mkPlayer ''p1'' ''Ann'' Novice 0 Playing],
      courts = [\<lparr>cid = ''c1'', cname = ''Court 1'',
                 playingIds = [''p1'', ''p2'', ''p3'', ''p4''], startedAt = Some 100\<rparr>],
      readySets = [[''p5'', ''p6'', ''p7'', ''p8'']]\<rparr>"

text \<open>
  The participants of the fairness example of the spec: pool counters \<open>[2, 0, 1, 0]\<close>,
  equal tiers; a fifth participant is staged in the first of two groups.
\<close>

definition exQueue :: state where
  "exQueue =
     \<lparr>players = [mkPlayer ''p1'' ''Ann'' Novice 2 Pool, mkPlayer ''p2'' ''Bob'' Novice 0 Pool,
                 mkPlayer ''p3'' ''Cid'' Novice 1 Pool, mkPlayer ''p4'' ''Dan'' Novice 0 Pool,
                 mkPlayer ''p5'' ''Eve'' Novice 1 Ready],
      courts = [],
      readySets = [[''p5''], []]\<rparr>"

text \<open>Three new participants: nobody has completed a session.\<close>

definition exFresh :: state where
  "exFresh =
     \<lparr>players = [mkPlayer ''p3'' ''Cid'' Novice 0 Pool, mkPlayer ''p2'' ''Bob'' Novice 0 Pool,
                 mkPlayer ''p1'' ''Ann'' Novice 0 Pool],
      courts = [],
      readySets = [[]]\<rparr>"

text \<open>
  A comparison of names for the examples: the lexicographic order of the character
  codes, as \<^verbatim>\<open>localeCompare\<close> orders plain capitalised ASCII names.
\<close>

definition lexCompare :: "string \<Rightarrow> string \<Rightarrow> int" where
  "lexCompare a b = (if a < b then - 1 else if b < a then 1 else 0)"

text \<open>The number of free slots of a list of groups, for a capacity.\<close>

abbreviation room :: "nat \<Rightarrow> string list list \<Rightarrow> nat" where
  "room cap sets \<equiv> sum_list (map (\<lambda>g. cap - length g) sets)"

text \<open>Sequences of operations from the initial state.\<close>

definition exFullOps :: "op list" where
  "exFullOps =
     [ConfirmAddPlayer ''p1'' ''Ann'' Other Novice, ConfirmAddPlayer ''p2'' ''Bob'' Other Novice,
      ConfirmAddPlayer ''p3'' ''Cid'' Other Novice, ConfirmAddPlayer ''p4'' ''Dan'' Other Novice,
      ConfirmAddPlayer ''p5'' ''Eve'' Other Novice, AddSet, AddCourt ''c1'',
      AddToReady ''p1'', AddToReady ''p2'', AddToReady ''p3'', AddToReady ''p4'',
      AddToReady ''p5'']"

definition exSessionOps :: "op list" where
  "exSessionOps =
     [ConfirmAddPlayer ''p1'' ''Ann'' Other Novice, ConfirmAddPlayer ''p2'' ''Bob'' Other Novice,
      ConfirmAddPlayer ''p3'' ''Cid'' Other Novice, ConfirmAddPlayer ''p4'' ''Dan'' Other Novice,
      ConfirmAddPlayer ''p5'' ''Eve'' Other Novice, AddSet, AddCourt ''c1'',
      FillAllSets (\<lambda>i. 0), AssignSetToCourt 0 ''c1'' 100, EndMatch ''c1'',
      AddToReady ''p1'', SwapReadyWithPool 0 0 ''p2'', DeletePlayer ''p1'',
      FillAllSets (\<lambda>i. 0), RemoveSet 1, Sanitize, RemoveCourt ''c1'']"

definition exDoubleOps :: "op list" where
  "exDoubleOps =
     [ConfirmAddPlayer ''p1'' ''Ann'' Other Novice, ConfirmAddPlayer ''p2'' ''Bob'' Other Novice,
      AddToReady ''p1'', AddToReady ''p1'', SwapReadyWithPool 0 0 ''p2'']"

section \<open>Helper lemmas\<close>

text \<open>The definitions that the evaluation of a concrete run unfolds.\<close>

lemmas evals = initState_def confirmAddPlayer_def addToReady_def mkPlayer_def
  addSet_def addCourt_def assignSetToCourt_def setAt_def shiftSetsAfterAssign_def splice1_def
  deletePlayer_def endMatch_def removeSet_def removeCourt_def sanitize_def swapReadyWithPool_def
  mapIdx_def enumerate_eq_zip fillAllSets_def distributeFill_def selectionQueue_def
  shuffleArr_def sortBy_def comparePlayers_def lexCompare_def less_char_def numeral_eq_Suc
  Let_def

lemma run_append: "run lc (xs @ ys) s = run lc ys (run lc xs s)"
  by (induction xs arbitrary: s) auto

lemma findIndex_None: "findIndex P xs = None \<longleftrightarrow> (\<forall>x \<in> set xs. \<not> P x)"
  by (induction xs) auto

lemma findIndex_Some:
  "findIndex P xs = Some t \<longleftrightarrow> t < length xs \<and> P (xs ! t) \<and> (\<forall>k < t. \<not> P (xs ! k))"
proof (induction xs arbitrary: t)
  case Nil
  then show ?case by simp
next
  case (Cons x xs)
  show ?case
  proof (cases "P x")
    case True
    then show ?thesis by (cases t) auto
  next
    case False
    show ?thesis
    proof (cases t)
      case 0
      with False show ?thesis by auto
    next
      case (Suc m)
      have "(\<forall>k<Suc m. \<not> P ((x # xs) ! k)) \<longleftrightarrow> (\<forall>k<m. \<not> P (xs ! k))"
        using False by (auto simp: less_Suc_eq_0_disj)
      with False Suc Cons.IH[of m] show ?thesis by auto
    qed
  qed
qed

lemma mapIdx_update: "mapIdx (\<lambda>x idx. if idx = r then v else x) xs = xs[r := v]"
  by (auto simp: mapIdx_def nth_enumerate_eq list_eq_iff_nth_eq nth_list_update)

lemma filter_neq_id: "i \<notin> set xs \<Longrightarrow> filter (\<lambda>x. x \<noteq> i) xs = xs"
  by (induction xs) auto

text \<open>
  Removing one element and appending another one that differs from it never gives the
  list back: the two lists differ as multisets.
\<close>

lemma splice_append_neq:
  assumes "i < length xs" and "xs ! i \<noteq> e"
  shows "take i xs @ drop (Suc i) xs @ [e] \<noteq> xs"
proof
  assume eq: "take i xs @ drop (Suc i) xs @ [e] = xs"
  have "xs = take i xs @ xs ! i # drop (Suc i) xs"
    using assms(1) by (rule id_take_nth_drop)
  then have "mset xs = mset (take i xs) + mset (drop (Suc i) xs) + {#xs ! i#}"
    by (metis mset.simps(2) mset_append union_mset_add_mset_right add.right_neutral union_assoc)
  moreover from eq have "mset xs = mset (take i xs) + mset (drop (Suc i) xs) + {#e#}"
    by (metis mset.simps(1,2) mset_append union_assoc add_mset_add_single)
  ultimately show False using assms(2) by simp
qed

text \<open>The example states are reachable from the initial state.\<close>

lemma exStaged_reachable:
  "run lc [ConfirmAddPlayer ''p1'' ''Ann'' Other Novice, AddToReady ''p1''] initState = exStaged"
  by (simp add: initState_def exStaged_def confirmAddPlayer_def addToReady_def mkPlayer_def)

lemma exFull_reachable: "run lc exFullOps initState = exFull"
  by (simp add: exFullOps_def initState_def exFull_def confirmAddPlayer_def addToReady_def
      mkPlayer_def addSet_def addCourt_def)

lemma exActive_reachable: "step lc (AssignSetToCourt 0 ''c1'' 100) exFull = exActive"
  by (simp add: exActive_def exFull_def assignSetToCourt_def mkPlayer_def setAt_def
      shiftSetsAfterAssign_def splice1_def)

section \<open>Assignment of a group to a station\<close>

text \<open>
  Claim C1, as amended. \<open>assignSetToCourt\<close> leaves the state as it is exactly when the
  group at the index does not have 4 occupants (an index past the end reads as the empty
  group). It does not look at the occupancy of the target station: with a full group
  it overwrites the occupancy and the timestamp of every station that has the given id,
  sets the status of the members to playing and rotates the groups, so the state
  changes.
\<close>

theorem assignSetToCourt_noop_iff_not_full:
  "(assignSetToCourt setIndex courtId now s = s) =
     (length (setAt (readySets s) setIndex) \<noteq> 4) \<and>
   (length (setAt (readySets s) setIndex) = 4 \<longrightarrow>
      courts (assignSetToCourt setIndex courtId now s) =
        map (\<lambda>c. if cid c = courtId
                  then c\<lparr>playingIds := setAt (readySets s) setIndex, startedAt := Some now\<rparr>
                  else c) (courts s) \<and>
      players (assignSetToCourt setIndex courtId now s) =
        map (\<lambda>p. if pid p \<in> set (setAt (readySets s) setIndex)
                  then p\<lparr>status := Playing\<rparr> else p) (players s))"
proof (cases "length (setAt (readySets s) setIndex) = 4")
  case False
  then show ?thesis by (simp add: assignSetToCourt_def)
next
  case True
  then have i: "setIndex < length (readySets s)" and n: "readySets s ! setIndex \<noteq> []"
    by (auto simp: setAt_def split: if_splits)
  have "readySets (assignSetToCourt setIndex courtId now s) \<noteq> readySets s"
    using True splice_append_neq[OF i n]
    by (simp add: assignSetToCourt_def shiftSetsAfterAssign_def splice1_def Let_def)
  then have "assignSetToCourt setIndex courtId now s \<noteq> s" by auto
  with True show ?thesis by (simp add: assignSetToCourt_def Let_def)
qed

text \<open>
  The theorem at \<open>exFull\<close>: the first group is full and the station is idle; the
  assignment gives \<open>exActive\<close>.
\<close>

theorem assignSetToCourt_noop_iff_not_full_witness:
  "length (setAt (readySets exFull) 0) = 4 \<and>
   assignSetToCourt 0 ''c1'' 100 exFull \<noteq> exFull \<and>
   map playingIds (courts (assignSetToCourt 0 ''c1'' 100 exFull)) =
     [[''p1'', ''p2'', ''p3'', ''p4'']]"
proof -
  have h: "length (setAt (readySets exFull) 0) = 4"
    by (simp add: exFull_def setAt_def)
  from assignSetToCourt_noop_iff_not_full[of 0 "''c1''" 100 exFull] h
  have "assignSetToCourt 0 ''c1'' 100 exFull \<noteq> exFull"
    and "courts (assignSetToCourt 0 ''c1'' 100 exFull) =
        map (\<lambda>c. if cid c = ''c1''
                  then c\<lparr>playingIds := setAt (readySets exFull) 0, startedAt := Some 100\<rparr>
                  else c) (courts exFull)"
    by simp_all
  with h show ?thesis by (simp add: exFull_def setAt_def)
qed

text \<open>
  Claim C1 as stated fails at \<open>exBusy\<close>: the station is not idle (four participants play
  there), the group is full, and the call changes the state: the station now holds the
  four members of the group.
\<close>

theorem assignSetToCourt_busy_counterexample:
  "map playingIds (courts exBusy) = [[''p1'', ''p2'', ''p3'', ''p4'']] \<and>
   map playingIds (courts (assignSetToCourt 0 ''c1'' 200 exBusy)) =
     [[''p5'', ''p6'', ''p7'', ''p8'']] \<and>
   assignSetToCourt 0 ''c1'' 200 exBusy \<noteq> exBusy"
  by (simp add: exBusy_def assignSetToCourt_def mkPlayer_def setAt_def
      shiftSetsAfterAssign_def splice1_def)

text \<open>
  Claim C8. When the group at \<open>setIndex\<close> is full, \<open>assignSetToCourt\<close> removes it from
  the sequence of groups and appends an empty group: the groups before it stay, every
  later group moves one index down, the last group is empty, the number of groups is
  unchanged and at least 1.
\<close>

theorem assignSetToCourt_rotates_groups:
  "length (setAt (readySets s) setIndex) = 4 \<Longrightarrow>
   readySets (assignSetToCourt setIndex courtId now s) =
     take setIndex (readySets s) @ drop (Suc setIndex) (readySets s) @ [[]] \<and>
   length (readySets (assignSetToCourt setIndex courtId now s)) = length (readySets s) \<and>
   1 \<le> length (readySets (assignSetToCourt setIndex courtId now s)) \<and>
   (\<forall>k < setIndex. readySets (assignSetToCourt setIndex courtId now s) ! k = readySets s ! k) \<and>
   (\<forall>k. setIndex \<le> k \<and> Suc k < length (readySets s) \<longrightarrow>
      readySets (assignSetToCourt setIndex courtId now s) ! k = readySets s ! Suc k) \<and>
   last (readySets (assignSetToCourt setIndex courtId now s)) = []"
  by (auto simp: assignSetToCourt_def Let_def shiftSetsAfterAssign_def splice1_def setAt_def
      nth_append min_def split: if_splits)

text \<open>
  The example of the spec: from the groups \<open>[G0 (full), G1]\<close>, assigning group 0 gives
  \<open>[G1, []]\<close>.
\<close>

theorem assignSetToCourt_rotates_groups_witness:
  "length (setAt (readySets exFull) 0) = 4 \<and>
   readySets exFull = [[''p1'', ''p2'', ''p3'', ''p4''], [''p5'']] \<and>
   readySets (assignSetToCourt 0 ''c1'' 100 exFull) = [[''p5''], []]"
proof -
  have h: "length (setAt (readySets exFull) 0) = 4"
    by (simp add: exFull_def setAt_def)
  from assignSetToCourt_rotates_groups[OF h, of "''c1''" 100]
  have "readySets (assignSetToCourt 0 ''c1'' 100 exFull) =
     take 0 (readySets exFull) @ drop (Suc 0) (readySets exFull) @ [[]]"
    by simp
  with h show ?thesis by (simp add: exFull_def)
qed

section \<open>Promotion and swap\<close>

text \<open>
  Claim C4, as amended. \<open>addToReady\<close> does not look at the participant: when every group
  is full it leaves the state as it is; otherwise it appends the id to the first group
  with fewer than 4 occupants and gives status ready to every participant with that id,
  whatever the status was and also when no participant has the id. Stations are
  untouched.
\<close>

theorem addToReady_first_group_with_room:
  "((\<forall>g \<in> set (readySets s). \<not> length g < 4) \<longrightarrow> addToReady i s = s) \<and>
   (t < length (readySets s) \<and> length (readySets s ! t) < 4 \<and>
    (\<forall>k < t. \<not> length (readySets s ! k) < 4) \<longrightarrow>
      readySets (addToReady i s) = (readySets s)[t := readySets s ! t @ [i]] \<and>
      players (addToReady i s) =
        map (\<lambda>p. if pid p = i then p\<lparr>status := Ready\<rparr> else p) (players s) \<and>
      courts (addToReady i s) = courts s)"
proof (intro conjI impI)
  assume "\<forall>g \<in> set (readySets s). \<not> length g < 4"
  then have "findIndex (\<lambda>g. length g < 4) (readySets s) = None"
    by (simp add: findIndex_None)
  then show "addToReady i s = s" by (simp add: addToReady_def)
next
  assume "t < length (readySets s) \<and> length (readySets s ! t) < 4 \<and>
    (\<forall>k < t. \<not> length (readySets s ! k) < 4)"
  then have f: "findIndex (\<lambda>g. length g < 4) (readySets s) = Some t"
    by (simp add: findIndex_Some)
  show "readySets (addToReady i s) = (readySets s)[t := readySets s ! t @ [i]]"
    by (simp add: addToReady_def f)
  show "players (addToReady i s) =
        map (\<lambda>p. if pid p = i then p\<lparr>status := Ready\<rparr> else p) (players s)"
    by (simp add: addToReady_def f)
  show "courts (addToReady i s) = courts s"
    by (simp add: addToReady_def f)
qed

text \<open>
  The theorem at \<open>exSwap\<close>: the pool participant \<open>p2\<close> goes to group 0, the first group
  with room, behind \<open>p1\<close>.
\<close>

theorem addToReady_first_group_with_room_witness:
  "(0 < length (readySets exSwap) \<and> length (readySets exSwap ! 0) < 4) \<and>
   readySets (addToReady ''p2'' exSwap) = [[''p1'', ''p2'']] \<and>
   map status (players (addToReady ''p2'' exSwap)) = [Ready, Ready]"
proof -
  have h: "0 < length (readySets exSwap) \<and> length (readySets exSwap ! 0) < 4 \<and>
    (\<forall>k < (0::nat). \<not> length (readySets exSwap ! k) < 4)"
    by (simp add: exSwap_def)
  from addToReady_first_group_with_room[of exSwap "''p2''" 0] h
  have "readySets (addToReady ''p2'' exSwap) = (readySets exSwap)[0 := readySets exSwap ! 0 @ [''p2'']]"
    and "players (addToReady ''p2'' exSwap) =
        map (\<lambda>p. if pid p = ''p2'' then p\<lparr>status := Ready\<rparr> else p) (players exSwap)"
    by blast+
  with h show ?thesis by (simp add: exSwap_def mkPlayer_def)
qed

text \<open>
  Claim C4 as stated fails at \<open>exStaged\<close>: \<open>p1\<close> is staged, not in the pool, and the call
  does not decline: it appends the id to the group a second time.
\<close>

theorem addToReady_staged_counterexample:
  "map pid (players exStaged) = [''p1''] \<and>
   map status (players exStaged) = [Ready] \<and>
   readySets (addToReady ''p1'' exStaged) = [[''p1'', ''p1'']] \<and>
   addToReady ''p1'' exStaged \<noteq> exStaged"
  by (simp add: exStaged_def addToReady_def mkPlayer_def)

text \<open>
  Claim C5, as amended. \<open>swapReadyWithPool\<close> leaves the state as it is when the group has
  no occupant at the slot (the slot or the group index is past the end). When the slot
  holds a non-empty id it replaces the id at that slot and nothing else in the groups
  (the length of the group is unchanged), gives status ready to every participant with
  the incoming id and status pool to every participant with the outgoing id (when the
  two ids differ), and leaves the stations alone. It does not look at the status of the
  incoming participant, nor whether there is one.
\<close>

theorem swapReadyWithPool_slot:
  "(\<not> readyIndex < length (setAt (readySets s) setIndex) \<longrightarrow>
      swapReadyWithPool setIndex readyIndex poolPlayerId s = s) \<and>
   (readyIndex < length (setAt (readySets s) setIndex) \<and>
    setAt (readySets s) setIndex ! readyIndex \<noteq> [] \<longrightarrow>
      readySets (swapReadyWithPool setIndex readyIndex poolPlayerId s) =
        (readySets s)[setIndex := (readySets s ! setIndex)[readyIndex := poolPlayerId]] \<and>
      length (readySets (swapReadyWithPool setIndex readyIndex poolPlayerId s) ! setIndex) =
        length (readySets s ! setIndex) \<and>
      players (swapReadyWithPool setIndex readyIndex poolPlayerId s) =
        map (\<lambda>p. if pid p = poolPlayerId then p\<lparr>status := Ready\<rparr>
                  else if pid p = readySets s ! setIndex ! readyIndex then p\<lparr>status := Pool\<rparr>
                  else p) (players s) \<and>
      courts (swapReadyWithPool setIndex readyIndex poolPlayerId s) = courts s)"
  by (auto simp: swapReadyWithPool_def Let_def mapIdx_update setAt_def split: if_splits)

text \<open>
  The theorem at \<open>exSwap\<close>: the pool participant \<open>p2\<close> takes slot 0 of group 0, and \<open>p1\<close>
  goes back to the pool.
\<close>

theorem swapReadyWithPool_slot_witness:
  "(0 < length (setAt (readySets exSwap) 0) \<and> setAt (readySets exSwap) 0 ! 0 \<noteq> []) \<and>
   readySets (swapReadyWithPool 0 0 ''p2'' exSwap) = [[''p2'']] \<and>
   map pid (players (swapReadyWithPool 0 0 ''p2'' exSwap)) = [''p2'', ''p1''] \<and>
   map status (players (swapReadyWithPool 0 0 ''p2'' exSwap)) = [Ready, Pool]"
proof -
  have h: "0 < length (setAt (readySets exSwap) 0) \<and> setAt (readySets exSwap) 0 ! 0 \<noteq> []"
    by (simp add: exSwap_def setAt_def)
  from swapReadyWithPool_slot[of 0 exSwap 0 "''p2''"] h
  have "readySets (swapReadyWithPool 0 0 ''p2'' exSwap) =
        (readySets exSwap)[0 := (readySets exSwap ! 0)[0 := ''p2'']]"
    and "players (swapReadyWithPool 0 0 ''p2'' exSwap) =
        map (\<lambda>p. if pid p = ''p2'' then p\<lparr>status := Ready\<rparr>
                  else if pid p = readySets exSwap ! 0 ! 0 then p\<lparr>status := Pool\<rparr>
                  else p) (players exSwap)"
    by blast+
  with h show ?thesis by (simp add: exSwap_def mkPlayer_def)
qed

text \<open>
  Claim C5 as stated fails at \<open>exPair\<close>: the incoming id \<open>p2\<close> belongs to a staged
  participant, not to a pool participant, and the call does not decline: \<open>p2\<close> now fills
  two slots and \<open>p1\<close> is back in the pool.
\<close>

theorem swapReadyWithPool_staged_counterexample:
  "map pid (players exPair) = [''p2'', ''p1''] \<and>
   map status (players exPair) = [Ready, Ready] \<and>
   readySets (swapReadyWithPool 0 0 ''p2'' exPair) = [[''p2'', ''p2'']] \<and>
   map status (players (swapReadyWithPool 0 0 ''p2'' exPair)) = [Ready, Pool] \<and>
   swapReadyWithPool 0 0 ''p2'' exPair \<noteq> exPair"
  by (simp add: exPair_def swapReadyWithPool_def mkPlayer_def setAt_def mapIdx_def
      enumerate_eq_zip)

section \<open>End of a session\<close>

text \<open>
  Claim C9. \<open>endMatch\<close> on a station with occupants adds 1 to the counter of each
  participant whose id is in the occupancy list and sets the status to pool, leaves the
  other participants and the groups as they are, and clears the occupancy list and the
  timestamp of the station. On a station that is idle already (no occupants, no
  timestamp) it leaves the state as it is; so it does when no station has the id.
\<close>

theorem endMatch_effect:
  "(find (\<lambda>c. cid c = courtId) (courts s) = Some court \<and> playingIds court \<noteq> [] \<longrightarrow>
      players (endMatch courtId s) =
        map (\<lambda>p. if pid p \<in> set (playingIds court)
                  then p\<lparr>matches := matches p + 1, status := Pool\<rparr> else p) (players s) \<and>
      courts (endMatch courtId s) =
        map (\<lambda>c. if cid c = courtId then c\<lparr>playingIds := [], startedAt := None\<rparr> else c)
          (courts s) \<and>
      readySets (endMatch courtId s) = readySets s) \<and>
   ((\<forall>c \<in> set (courts s). cid c = courtId \<longrightarrow> playingIds c = [] \<and> startedAt c = None) \<longrightarrow>
      endMatch courtId s = s)"
proof (intro conjI impI)
  assume a: "\<forall>c \<in> set (courts s). cid c = courtId \<longrightarrow> playingIds c = [] \<and> startedAt c = None"
  have m: "map (\<lambda>c. if cid c = courtId then c\<lparr>playingIds := [], startedAt := None\<rparr> else c)
      (courts s) = courts s"
    using a by (intro map_idI) auto
  show "endMatch courtId s = s"
  proof (cases "find (\<lambda>c. cid c = courtId) (courts s)")
    case None
    then show ?thesis by (simp add: endMatch_def)
  next
    case (Some c)
    then have "c \<in> set (courts s) \<and> cid c = courtId"
      by (auto simp: find_Some_iff)
    with a have "playingIds c = []" by auto
    with Some m show ?thesis by (simp add: endMatch_def)
  qed
qed (auto simp: endMatch_def)

text \<open>
  The theorem at \<open>exActive\<close>: the four occupants of the station get counter 1 and status
  pool, the staged participant \<open>p5\<close> is untouched, the station is idle afterwards, and a
  second call changes nothing.
\<close>

theorem endMatch_effect_witness:
  "(find (\<lambda>c. cid c = ''c1'') (courts exActive) = Some (hd (courts exActive)) \<and>
    playingIds (hd (courts exActive)) \<noteq> []) \<and>
   map pid (players (endMatch ''c1'' exActive)) = [''p5'', ''p4'', ''p3'', ''p2'', ''p1''] \<and>
   map matches (players (endMatch ''c1'' exActive)) = [0, 1, 1, 1, 1] \<and>
   map status (players (endMatch ''c1'' exActive)) = [Ready, Pool, Pool, Pool, Pool] \<and>
   map playingIds (courts (endMatch ''c1'' exActive)) = [[]] \<and>
   map startedAt (courts (endMatch ''c1'' exActive)) = [None] \<and>
   endMatch ''c1'' (endMatch ''c1'' exActive) = endMatch ''c1'' exActive"
proof -
  have h: "find (\<lambda>c. cid c = ''c1'') (courts exActive) = Some (hd (courts exActive)) \<and>
    playingIds (hd (courts exActive)) \<noteq> []"
    by (simp add: exActive_def)
  from endMatch_effect[of "''c1''" exActive "hd (courts exActive)"] h
  have p: "players (endMatch ''c1'' exActive) =
        map (\<lambda>p. if pid p \<in> set (playingIds (hd (courts exActive)))
                  then p\<lparr>matches := matches p + 1, status := Pool\<rparr> else p) (players exActive)"
    and c: "courts (endMatch ''c1'' exActive) =
        map (\<lambda>c. if cid c = ''c1'' then c\<lparr>playingIds := [], startedAt := None\<rparr> else c)
          (courts exActive)"
    by blast+
  have i: "\<forall>c \<in> set (courts (endMatch ''c1'' exActive)).
      cid c = ''c1'' \<longrightarrow> playingIds c = [] \<and> startedAt c = None"
    unfolding c by (simp add: exActive_def)
  from endMatch_effect[of "''c1''" "endMatch ''c1'' exActive"] i
  have "endMatch ''c1'' (endMatch ''c1'' exActive) = endMatch ''c1'' exActive"
    by blast
  with h show ?thesis unfolding p c by (simp add: exActive_def mkPlayer_def)
qed

section \<open>Deletion of a participant\<close>

text \<open>
  Claim C10. \<open>deletePlayer\<close> removes the record of the participant and removes the id
  from the occupancy list of every station and from every group. Nothing else changes:
  the other participants keep their records (status and counter included), every
  station keeps its id, name and timestamp, a station whose occupancy list does not
  hold the id is unchanged, and so is a group that does not hold the id.
\<close>

theorem deletePlayer_frame:
  "players (deletePlayer i s) = filter (\<lambda>p. pid p \<noteq> i) (players s) \<and>
   length (courts (deletePlayer i s)) = length (courts s) \<and>
   (\<forall>k < length (courts s).
      playingIds (courts (deletePlayer i s) ! k) =
        filter (\<lambda>x. x \<noteq> i) (playingIds (courts s ! k)) \<and>
      startedAt (courts (deletePlayer i s) ! k) = startedAt (courts s ! k) \<and>
      cid (courts (deletePlayer i s) ! k) = cid (courts s ! k) \<and>
      cname (courts (deletePlayer i s) ! k) = cname (courts s ! k) \<and>
      (i \<notin> set (playingIds (courts s ! k)) \<longrightarrow>
         courts (deletePlayer i s) ! k = courts s ! k)) \<and>
   length (readySets (deletePlayer i s)) = length (readySets s) \<and>
   (\<forall>k < length (readySets s).
      readySets (deletePlayer i s) ! k = filter (\<lambda>x. x \<noteq> i) (readySets s ! k) \<and>
      (i \<notin> set (readySets s ! k) \<longrightarrow> readySets (deletePlayer i s) ! k = readySets s ! k))"
  by (auto simp: deletePlayer_def filter_neq_id)

text \<open>
  The theorem at \<open>exActive\<close>, for the occupant \<open>p2\<close> of the station: the three other
  occupants stay on the station and keep status playing, the timestamp stays, and the
  group of \<open>p5\<close> is untouched.
\<close>

theorem deletePlayer_frame_witness:
  "(0 < length (courts exActive) \<and> 0 < length (readySets exActive) \<and>
    ''p2'' \<notin> set (readySets exActive ! 0)) \<and>
   playingIds (courts (deletePlayer ''p2'' exActive) ! 0) = [''p1'', ''p3'', ''p4''] \<and>
   startedAt (courts (deletePlayer ''p2'' exActive) ! 0) = Some 100 \<and>
   readySets (deletePlayer ''p2'' exActive) ! 0 = [''p5''] \<and>
   map pid (players (deletePlayer ''p2'' exActive)) = [''p5'', ''p4'', ''p3'', ''p1''] \<and>
   map status (players (deletePlayer ''p2'' exActive)) = [Ready, Playing, Playing, Playing]"
proof -
  have h: "0 < length (courts exActive) \<and> 0 < length (readySets exActive) \<and>
    ''p2'' \<notin> set (readySets exActive ! 0)"
    by (simp add: exActive_def)
  from deletePlayer_frame[of "''p2''" exActive] h
  have "playingIds (courts (deletePlayer ''p2'' exActive) ! 0) =
        filter (\<lambda>x. x \<noteq> ''p2'') (playingIds (courts exActive ! 0))"
    and "startedAt (courts (deletePlayer ''p2'' exActive) ! 0) = startedAt (courts exActive ! 0)"
    and "readySets (deletePlayer ''p2'' exActive) ! 0 = readySets exActive ! 0"
    and "players (deletePlayer ''p2'' exActive) = filter (\<lambda>p. pid p \<noteq> ''p2'') (players exActive)"
    by blast+
  with h show ?thesis by (simp add: exActive_def mkPlayer_def)
qed

section \<open>The selection queue\<close>

lemma mset_insertBy: "mset (insertBy cmp x ys) = add_mset x (mset ys)"
  by (induction ys) auto

lemma mset_sortBy: "mset (sortBy cmp xs) = mset xs"
  by (induction xs) (auto simp: sortBy_def mset_insertBy)

lemma set_insertBy: "set (insertBy cmp x ys) = insert x (set ys)"
  using mset_insertBy[of cmp x ys, THEN arg_cong, of set_mset] by simp

lemma sorted_wrt_insertBy:
  assumes tr: "\<And>a b c. R a b \<Longrightarrow> R b c \<Longrightarrow> R a c"
    and le: "\<And>y. cmp x y \<le> 0 \<Longrightarrow> R x y"
    and gt: "\<And>y. \<not> cmp x y \<le> 0 \<Longrightarrow> R y x"
    and s: "sorted_wrt R ys"
  shows "sorted_wrt R (insertBy cmp x ys)"
  using s
proof (induction ys)
  case Nil
  then show ?case by simp
next
  case (Cons y ys)
  show ?case
  proof (cases "cmp x y \<le> 0")
    case True
    then have "R x y" by (rule le)
    moreover have "R x z" if "z \<in> set ys" for z
      using \<open>R x y\<close> Cons.prems that by (auto intro: tr)
    ultimately show ?thesis using True Cons.prems by auto
  next
    case False
    then have "R y x" by (rule gt)
    with False Cons show ?thesis by (auto simp: set_insertBy)
  qed
qed

lemma sorted_wrt_sortBy:
  assumes tr: "\<And>a b c. R a b \<Longrightarrow> R b c \<Longrightarrow> R a c"
    and le: "\<And>x y. cmp x y \<le> 0 \<Longrightarrow> R x y"
    and gt: "\<And>x y. \<not> cmp x y \<le> 0 \<Longrightarrow> R y x"
  shows "sorted_wrt R (sortBy cmp xs)"
proof (induction xs)
  case Nil
  then show ?case by (simp add: sortBy_def)
next
  case (Cons x xs)
  have "sorted_wrt R (insertBy cmp x (sortBy cmp xs))"
    using Cons by (intro sorted_wrt_insertBy[of R cmp x]) (auto intro: tr le gt)
  then show ?case by (simp add: sortBy_def)
qed

lemma SKILL_ORDER_inj: "SKILL_ORDER a = SKILL_ORDER b \<longleftrightarrow> a = b"
  by (cases a; cases b) simp_all

text \<open>The result is sorted by counter, then tier, whatever \<open>lc\<close> is.\<close>

lemma sortBy_comparePlayers_key:
  "sorted_wrt (\<lambda>a b. matches a < matches b \<or>
       (matches a = matches b \<and> SKILL_ORDER (skill a) \<le> SKILL_ORDER (skill b)))
     (sortBy (comparePlayers lc) xs)"
  by (rule sorted_wrt_sortBy) (auto simp: comparePlayers_def split: if_splits)

lemma sortBy_comparePlayers_full:
  assumes "\<And>a b. 0 < lc a b \<Longrightarrow> lc b a \<le> 0"
    and "\<And>a b c. lc a b \<le> 0 \<Longrightarrow> lc b c \<le> 0 \<Longrightarrow> lc a c \<le> 0"
  shows "sorted_wrt (\<lambda>a b. matches a < matches b \<or>
       (matches a = matches b \<and>
         (SKILL_ORDER (skill a) < SKILL_ORDER (skill b) \<or>
          (SKILL_ORDER (skill a) = SKILL_ORDER (skill b) \<and> lc (name a) (name b) \<le> 0))))
     (sortBy (comparePlayers lc) xs)"
proof (rule sorted_wrt_sortBy, goal_cases)
  case (1 a b c)
  then show ?case using assms(2)[of "name a" "name b" "name c"] by auto
next
  case (2 x y)
  then show ?case by (auto simp: comparePlayers_def split: if_splits)
next
  case (3 x y)
  then show ?case using assms(1)[of "name x" "name y"]
    by (auto simp: comparePlayers_def split: if_splits)
qed

lemma mset_shuffleLoop:
  "k < length a \<or> k = 0 \<Longrightarrow> mset (shuffleLoop rnd a k) = mset a"
proof (induction k arbitrary: a)
  case 0
  then show ?case by simp
next
  case (Suc k)
  let ?i = "Suc k"
  let ?j = "rnd ?i mod (?i + 1)"
  from Suc.prems have i: "?i < length a" by simp
  have "?j < ?i + 1" by (rule mod_less_divisor) simp
  with i have j: "?j < length a" by linarith
  have "mset (shuffleLoop rnd (a[?i := a ! ?j, ?j := a ! ?i]) k) = mset (a[?i := a ! ?j, ?j := a ! ?i])"
    using i by (intro Suc.IH) simp
  also have "\<dots> = mset a"
    using j i by (rule mset_swap)
  finally show ?case by (simp add: Let_def)
qed

lemma mset_shuffleArr: "mset (shuffleArr rnd a) = mset a"
  unfolding shuffleArr_def by (rule mset_shuffleLoop) (cases a, auto)

lemma mset_selectionQueue:
  "mset (selectionQueue lc rnd s) = mset (filter (\<lambda>p. status p = Pool) (players s))"
  unfolding selectionQueue_def Let_def
  by (cases "\<exists>p \<in> set (players s). 0 < matches p")
    (simp_all only: if_True if_False mset_sortBy mset_shuffleArr)

lemma shuffleLoop_cong:
  "(\<And>i. 0 < i \<Longrightarrow> i \<le> k \<Longrightarrow> rnd i = rnd' i) \<Longrightarrow> shuffleLoop rnd a k = shuffleLoop rnd' a k"
  by (induction k arbitrary: a) (simp_all add: Let_def)

lemma shuffleLoop_surj:
  assumes "k < length a" "length b = length a"
    "mset (take (Suc k) b) = mset (take (Suc k) a)" "drop (Suc k) b = drop (Suc k) a"
  shows "\<exists>rnd. shuffleLoop rnd a k = b"
  using assms
proof (induction k arbitrary: a)
  case 0
  then have "0 < length b" by simp
  with 0 have "mset [b ! 0] = mset [a ! 0]"
    by (simp add: take_Suc_conv_app_nth)
  then have "take (Suc 0) b = take (Suc 0) a"
    using 0 by (simp add: take_Suc_conv_app_nth)
  then have "take (Suc 0) b @ drop (Suc 0) b = take (Suc 0) a @ drop (Suc 0) a"
    using 0 by simp
  then have "b = a" by (simp only: append_take_drop_id)
  then show ?case by simp
next
  case (Suc k)
  let ?i = "Suc k"
  have ia: "?i < length a" and ib: "?i < length b" using Suc.prems by simp_all
  have "b ! ?i \<in> set (take (Suc ?i) b)"
    using ib by (simp add: take_Suc_conv_app_nth[of ?i])
  then have "b ! ?i \<in> set (take (Suc ?i) a)"
    using Suc.prems(3) by (metis set_mset_mset)
  then obtain j where j: "j < Suc ?i" "a ! j = b ! ?i"
    using ia by (auto simp: in_set_conv_nth)
  then have ja: "j < length a" using ia by simp
  define a' where "a' = a[?i := a ! j, j := a ! ?i]"
  have la: "length a' = length a" by (simp add: a'_def)
  have ai: "a' ! ?i = b ! ?i"
    using j ia ja by (cases "j = ?i") (simp_all add: a'_def)
  have dr: "drop (Suc ?i) a' = drop (Suc ?i) a"
    using j by (simp add: a'_def)
  have "take (Suc ?i) a' = (take (Suc ?i) a)[?i := take (Suc ?i) a ! j, j := take (Suc ?i) a ! ?i]"
    using j by (simp add: a'_def take_update_swap)
  also have "mset \<dots> = mset (take (Suc ?i) a)"
    using j ia by (intro mset_swap) simp_all
  finally have ms: "mset (take (Suc ?i) a') = mset (take (Suc ?i) a)" .
  have "mset (take ?i a') + {#b ! ?i#} = mset (take (Suc ?i) a')"
    using ia la ai by (simp add: take_Suc_conv_app_nth[of ?i])
  also have "\<dots> = mset (take (Suc ?i) b)"
    using ms Suc.prems(3) by simp
  also have "\<dots> = mset (take ?i b) + {#b ! ?i#}"
    using ib by (simp add: take_Suc_conv_app_nth[of ?i])
  finally have m': "mset (take (Suc k) b) = mset (take (Suc k) a')" by simp
  have "drop ?i b = b ! ?i # drop (Suc ?i) b"
    using ib by (simp add: Cons_nth_drop_Suc)
  also have "\<dots> = a' ! ?i # drop (Suc ?i) a'"
    using ai dr Suc.prems(4) by simp
  also have "\<dots> = drop ?i a'"
    using ia la by (simp add: Cons_nth_drop_Suc)
  finally have d': "drop (Suc k) b = drop (Suc k) a'" .
  have "k < length a'" using ia la by simp
  from Suc.IH[OF this _ m' d'] Suc.prems(2) la
  obtain rnd' where r: "shuffleLoop rnd' a' k = b" by auto
  define rnd where "rnd = rnd'(?i := j)"
  have "rnd ?i mod (?i + 1) = j" using j by (simp add: rnd_def)
  then have "shuffleLoop rnd a ?i = shuffleLoop rnd a' k"
    by (simp add: Let_def a'_def)
  also have "\<dots> = shuffleLoop rnd' a' k"
    by (rule shuffleLoop_cong) (simp add: rnd_def)
  finally show ?case using r by blast
qed

lemma shuffleArr_surj:
  assumes "mset b = mset a"
  shows "\<exists>rnd. shuffleArr rnd a = b"
proof (cases a)
  case Nil
  with assms show ?thesis by (simp add: shuffleArr_def)
next
  case (Cons x xs)
  from assms have l: "length b = length a" by (metis size_mset)
  have "\<exists>rnd. shuffleLoop rnd a (length a - 1) = b"
    using Cons l assms by (intro shuffleLoop_surj) simp_all
  then show ?thesis by (simp add: shuffleArr_def)
qed

lemma lexCompare_total: "0 < lexCompare a b \<Longrightarrow> lexCompare b a \<le> 0"
  by (auto simp: lexCompare_def split: if_splits)

lemma lexCompare_trans: "lexCompare a b \<le> 0 \<Longrightarrow> lexCompare b c \<le> 0 \<Longrightarrow> lexCompare a c \<le> 0"
  by (auto simp: lexCompare_def split: if_splits)

text \<open>
  Claim C6. The selection queue of \<open>fillAllSets\<close> is a permutation of the pool. When no
  participant of the system has a counter above 0, it is the Fisher-Yates shuffle of the
  pool driven by the random draws, and every order of the pool is the outcome of some
  draws. When some participant has a counter above 0, the queue is sorted by ascending
  counter, then by ascending tier (Novice before Intermediate before Advance), whatever
  the comparison of names is; when the comparison of names \<open>lc\<close> (the host's
  \<^verbatim>\<open>localeCompare\<close>) is a consistent comparator, participants with equal counter and
  tier are in ascending order of name.
\<close>

theorem selectionQueue_policy:
  "mset (selectionQueue lc rnd s) = mset (filter (\<lambda>p. status p = Pool) (players s)) \<and>
   ((\<forall>p \<in> set (players s). \<not> 0 < matches p) \<longrightarrow>
      selectionQueue lc rnd s = shuffleArr rnd (filter (\<lambda>p. status p = Pool) (players s)) \<and>
      (\<forall>ys. mset ys = mset (filter (\<lambda>p. status p = Pool) (players s)) \<longrightarrow>
         (\<exists>rnd'. selectionQueue lc rnd' s = ys))) \<and>
   ((\<exists>p \<in> set (players s). 0 < matches p) \<longrightarrow>
      sorted_wrt (\<lambda>a b. matches a < matches b \<or>
          (matches a = matches b \<and> SKILL_ORDER (skill a) \<le> SKILL_ORDER (skill b)))
        (selectionQueue lc rnd s)) \<and>
   ((\<exists>p \<in> set (players s). 0 < matches p) \<and>
    (\<forall>a b. 0 < lc a b \<longrightarrow> lc b a \<le> 0) \<and>
    (\<forall>a b c. lc a b \<le> 0 \<and> lc b c \<le> 0 \<longrightarrow> lc a c \<le> 0) \<longrightarrow>
      sorted_wrt (\<lambda>a b. matches a < matches b \<or>
          (matches a = matches b \<and>
            (SKILL_ORDER (skill a) < SKILL_ORDER (skill b) \<or>
             (skill a = skill b \<and> lc (name a) (name b) \<le> 0))))
        (selectionQueue lc rnd s)) \<and>
   SKILL_ORDER Novice < SKILL_ORDER Intermediate \<and>
   SKILL_ORDER Intermediate < SKILL_ORDER Advance"
proof (intro conjI impI)
  show "mset (selectionQueue lc rnd s) = mset (filter (\<lambda>p. status p = Pool) (players s))"
    unfolding selectionQueue_def Let_def
    by (cases "\<exists>p \<in> set (players s). 0 < matches p")
      (simp_all only: if_True if_False mset_sortBy mset_shuffleArr)
next
  assume z: "\<forall>p \<in> set (players s). \<not> 0 < matches p"
  then show "selectionQueue lc rnd s = shuffleArr rnd (filter (\<lambda>p. status p = Pool) (players s))"
    by (simp add: selectionQueue_def)
  show "\<forall>ys. mset ys = mset (filter (\<lambda>p. status p = Pool) (players s)) \<longrightarrow>
         (\<exists>rnd'. selectionQueue lc rnd' s = ys)"
    using z shuffleArr_surj[of _ "filter (\<lambda>p. status p = Pool) (players s)"]
    by (simp add: selectionQueue_def)
next
  assume "\<exists>p \<in> set (players s). 0 < matches p"
  then show "sorted_wrt (\<lambda>a b. matches a < matches b \<or>
          (matches a = matches b \<and> SKILL_ORDER (skill a) \<le> SKILL_ORDER (skill b)))
        (selectionQueue lc rnd s)"
    using sortBy_comparePlayers_key[of lc] by (simp add: selectionQueue_def)
next
  assume a: "(\<exists>p \<in> set (players s). 0 < matches p) \<and>
    (\<forall>a b. 0 < lc a b \<longrightarrow> lc b a \<le> 0) \<and>
    (\<forall>a b c. lc a b \<le> 0 \<and> lc b c \<le> 0 \<longrightarrow> lc a c \<le> 0)"
  then have any: "\<exists>p \<in> set (players s). 0 < matches p" by blast
  from a have "sorted_wrt (\<lambda>a b. matches a < matches b \<or>
       (matches a = matches b \<and>
         (SKILL_ORDER (skill a) < SKILL_ORDER (skill b) \<or>
          (SKILL_ORDER (skill a) = SKILL_ORDER (skill b) \<and> lc (name a) (name b) \<le> 0))))
     (sortBy (comparePlayers lc) (filter (\<lambda>p. status p = Pool) (players s)))"
    by (intro sortBy_comparePlayers_full) blast+
  with any show "sorted_wrt (\<lambda>a b. matches a < matches b \<or>
          (matches a = matches b \<and>
            (SKILL_ORDER (skill a) < SKILL_ORDER (skill b) \<or>
             (skill a = skill b \<and> lc (name a) (name b) \<le> 0))))
        (selectionQueue lc rnd s)"
    by (simp add: selectionQueue_def SKILL_ORDER_inj)
qed simp_all


text \<open>
  The theorem at \<open>exQueue\<close>, the example of the spec with pool counters \<open>[2, 0, 1, 0]\<close> and
  equal tiers: the two participants with counter 0 come first (by name), then the one
  with counter 1, then the one with counter 2. At \<open>exFresh\<close>, where all counters are 0,
  two sequences of draws give two orders.
\<close>

theorem selectionQueue_policy_witness:
  "map matches (filter (\<lambda>p. status p = Pool) (players exQueue)) = [2, 0, 1, 0] \<and>
   sorted_wrt (\<lambda>a b. matches a < matches b \<or>
          (matches a = matches b \<and>
            (SKILL_ORDER (skill a) < SKILL_ORDER (skill b) \<or>
             (skill a = skill b \<and> lexCompare (name a) (name b) \<le> 0))))
        (selectionQueue lexCompare (\<lambda>i. 0) exQueue) \<and>
   map matches (selectionQueue lexCompare (\<lambda>i. 0) exQueue) = [0, 0, 1, 2] \<and>
   map name (selectionQueue lexCompare (\<lambda>i. 0) exQueue) = [''Bob'', ''Dan'', ''Cid'', ''Ann''] \<and>
   map matches (players exFresh) = [0, 0, 0] \<and>
   selectionQueue lexCompare (\<lambda>i. 0) exFresh =
     shuffleArr (\<lambda>i. 0) (filter (\<lambda>p. status p = Pool) (players exFresh)) \<and>
   map name (selectionQueue lexCompare (\<lambda>i. 0) exFresh) = [''Bob'', ''Ann'', ''Cid''] \<and>
   map name (selectionQueue lexCompare (\<lambda>i. i) exFresh) = [''Cid'', ''Bob'', ''Ann'']"
proof -
  have any: "\<exists>p \<in> set (players exQueue). 0 < matches p"
    by (simp add: exQueue_def mkPlayer_def)
  have tot: "\<forall>a b. 0 < lexCompare a b \<longrightarrow> lexCompare b a \<le> 0"
    using lexCompare_total by blast
  have tr: "\<forall>a b c. lexCompare a b \<le> 0 \<and> lexCompare b c \<le> 0 \<longrightarrow> lexCompare a c \<le> 0"
    using lexCompare_trans by blast
  from selectionQueue_policy[of lexCompare "\<lambda>i. 0" exQueue] any tot tr
  have srt: "sorted_wrt (\<lambda>a b. matches a < matches b \<or>
          (matches a = matches b \<and>
            (SKILL_ORDER (skill a) < SKILL_ORDER (skill b) \<or>
             (skill a = skill b \<and> lexCompare (name a) (name b) \<le> 0))))
        (selectionQueue lexCompare (\<lambda>i. 0) exQueue)"
    by blast
  have q: "selectionQueue lexCompare (\<lambda>i. 0) exQueue =
      [mkPlayer ''p2'' ''Bob'' Novice 0 Pool, mkPlayer ''p4'' ''Dan'' Novice 0 Pool,
       mkPlayer ''p3'' ''Cid'' Novice 1 Pool, mkPlayer ''p1'' ''Ann'' Novice 2 Pool]"
    by (simp add: selectionQueue_def exQueue_def sortBy_def comparePlayers_def mkPlayer_def
        lexCompare_def less_char_def)
  have none: "\<forall>p \<in> set (players exFresh). \<not> 0 < matches p"
    by (simp add: exFresh_def mkPlayer_def)
  from selectionQueue_policy[of lexCompare "\<lambda>i. 0" exFresh] none
  have sh: "selectionQueue lexCompare (\<lambda>i. 0) exFresh =
     shuffleArr (\<lambda>i. 0) (filter (\<lambda>p. status p = Pool) (players exFresh))"
    by blast
  have f0: "map name (selectionQueue lexCompare (\<lambda>i. 0) exFresh) = [''Bob'', ''Ann'', ''Cid'']"
    by (simp add: selectionQueue_def exFresh_def shuffleArr_def mkPlayer_def numeral_eq_Suc)
  have f1: "map name (selectionQueue lexCompare (\<lambda>i. i) exFresh) = [''Cid'', ''Bob'', ''Ann'']"
    by (simp add: selectionQueue_def exFresh_def shuffleArr_def mkPlayer_def numeral_eq_Suc)
  have m: "map matches (filter (\<lambda>p. status p = Pool) (players exQueue)) = [2, 0, 1, 0]"
    "map matches (players exFresh) = [0, 0, 0]"
    by (simp_all add: exQueue_def exFresh_def mkPlayer_def)
  have qm: "map matches (selectionQueue lexCompare (\<lambda>i. 0) exQueue) = [0, 0, 1, 2]"
    "map name (selectionQueue lexCompare (\<lambda>i. 0) exQueue) = [''Bob'', ''Dan'', ''Cid'', ''Ann'']"
    unfolding q by (simp_all add: mkPlayer_def)
  from m srt qm sh f0 f1 show ?thesis by blast
qed

section \<open>Filling the groups\<close>

lemma fillSet_eq:
  "fillSet cap g q used =
     (g @ take (cap - length g) q, drop (cap - length g) q, used @ take (cap - length g) q)"
proof (induction q arbitrary: g used)
  case Nil
  then show ?case by simp
next
  case (Cons x q)
  show ?case
  proof (cases "length g < cap")
    case True
    then obtain m where m: "cap - length g = Suc m" "cap - length (g @ [x]) = m"
      by (cases "cap - length g") auto
    with True Cons.IH[of "g @ [x]" "used @ [x]"] show ?thesis by simp
  next
    case False
    then show ?thesis by simp
  qed
qed


lemma fillLoop_Cons:
  "fillLoop cap (g # gs) q used =
     ((g @ take (cap - length g) q)
        # fst (fillLoop cap gs (drop (cap - length g) q) (used @ take (cap - length g) q)),
      snd (fillLoop cap gs (drop (cap - length g) q) (used @ take (cap - length g) q)))"
  by (simp add: fillSet_eq split: prod.splits)

lemma fillLoop_length: "length (fst (fillLoop cap sets q used)) = length sets"
  by (induction sets arbitrary: q used) (simp_all add: fillLoop_Cons del: fillLoop.simps(2))

lemma fillLoop_used:
  "snd (fillLoop cap sets q used) = used @ take (room cap sets) q"
  by (induction sets arbitrary: q used)
    (simp_all add: fillLoop_Cons take_add del: fillLoop.simps(2))

lemma fillLoop_nth:
  "k < length sets \<Longrightarrow>
   fst (fillLoop cap sets q used) ! k =
     sets ! k @ take (cap - length (sets ! k)) (drop (room cap (take k sets)) q)"
proof (induction sets arbitrary: q used k)
  case Nil
  then show ?case by simp
next
  case (Cons g gs)
  show ?case
  proof (cases k)
    case 0
    then show ?thesis by (simp add: fillLoop_Cons del: fillLoop.simps(2))
  next
    case (Suc m)
    with Cons.prems have "m < length gs" by simp
    from Cons.IH[OF this] Suc show ?thesis
      by (simp add: fillLoop_Cons add.commute del: fillLoop.simps(2))
  qed
qed


lemma room_full: "(\<forall>g \<in> set sets. \<not> length g < cap) \<Longrightarrow> room cap sets = 0"
  by (induction sets) auto

lemma room_nth_le: "k < length sets \<Longrightarrow> cap - length (sets ! k) \<le> room cap sets"
proof (induction sets arbitrary: k)
  case Nil
  then show ?case by simp
next
  case (Cons g gs)
  show ?case
  proof (cases k)
    case 0
    then show ?thesis by simp
  next
    case (Suc m)
    with Cons.prems have "m < length gs" by simp
    from Cons.IH[OF this] Suc show ?thesis by simp
  qed
qed

lemma room_take_mono: "n \<le> m \<Longrightarrow> room cap (take n sets) \<le> room cap (take m sets)"
proof (induction sets arbitrary: n m)
  case Nil
  then show ?case by simp
next
  case (Cons g gs)
  then show ?case by (cases n; cases m) auto
qed

lemma room_take_Suc:
  "j < length sets \<Longrightarrow> room cap (take (Suc j) sets) = room cap (take j sets) + (cap - length (sets ! j))"
  by (simp add: take_Suc_conv_app_nth)

lemma selectionQueue_empty_pool:
  "filter (\<lambda>p. status p = Pool) (players s) = [] \<Longrightarrow> selectionQueue lc rnd s = []"
  by (simp add: selectionQueue_def sortBy_def shuffleArr_def)

lemma fillAllSets_unfold:
  "fillAllSets lc rnd s =
     (let q = map pid (selectionQueue lc rnd s);
          used = take (room 4 (readySets s)) q
      in if used = [] then s
         else s\<lparr>readySets := fst (fillLoop 4 (readySets s) q []),
                players := map (\<lambda>p. if pid p \<in> set used then p\<lparr>status := Ready\<rparr> else p)
                             (players s)\<rparr>)"
proof -
  define q where "q = map pid (selectionQueue lc rnd s)"
  obtain res u where fl: "fillLoop 4 (readySets s) q [] = (res, u)"
    by (cases "fillLoop 4 (readySets s) q []")
  have u: "u = take (room 4 (readySets s)) q"
    using fillLoop_used[of 4 "readySets s" q "[]"] fl by simp
  have r: "length res = length (readySets s)"
    using fillLoop_length[of 4 "readySets s" q "[]"] fl by simp
  have "res \<noteq> []" if "u \<noteq> []"
  proof
    assume "res = []"
    with r have "readySets s = []" by simp
    with u that show False by simp
  qed
  then show ?thesis
    using fl u by (auto simp: fillAllSets_def distributeFill_def Let_def q_def[symmetric])
qed

text \<open>
  Claim C7. \<open>fillAllSets\<close> keeps the number of groups. Group \<open>k\<close> keeps its occupants in
  their order and gets, behind them, the next ids of the selection queue after those
  that the groups before it took (\<open>room 4\<close> of these groups), as many as it has free
  slots. A group that received an id comes after full groups only. The participants
  whose ids were consumed get status ready, nothing else changes in the participants,
  and the stations are untouched. When the pool is empty or no group has a free slot,
  the state is unchanged.
\<close>

theorem fillAllSets_distribution:
  "length (readySets (fillAllSets lc rnd s)) = length (readySets s) \<and>
   (\<forall>k < length (readySets s).
      readySets (fillAllSets lc rnd s) ! k =
        readySets s ! k @
          take (4 - length (readySets s ! k))
            (drop (room 4 (take k (readySets s))) (map pid (selectionQueue lc rnd s)))) \<and>
   (\<forall>j k. j < k \<and> k < length (readySets s) \<and>
      readySets (fillAllSets lc rnd s) ! k \<noteq> readySets s ! k \<longrightarrow>
        4 \<le> length (readySets (fillAllSets lc rnd s) ! j)) \<and>
   players (fillAllSets lc rnd s) =
     map (\<lambda>p. if pid p \<in> set (take (room 4 (readySets s)) (map pid (selectionQueue lc rnd s)))
               then p\<lparr>status := Ready\<rparr> else p) (players s) \<and>
   courts (fillAllSets lc rnd s) = courts s \<and>
   (filter (\<lambda>p. status p = Pool) (players s) = [] \<or>
    (\<forall>g \<in> set (readySets s). \<not> length g < 4) \<longrightarrow> fillAllSets lc rnd s = s)"
proof -
  define q where "q = map pid (selectionQueue lc rnd s)"
  define used where "used = take (room 4 (readySets s)) q"
  let ?s' = "fillAllSets lc rnd s"
  have unf: "?s' =
     (if used = [] then s
      else s\<lparr>readySets := fst (fillLoop 4 (readySets s) q []),
             players := map (\<lambda>p. if pid p \<in> set used then p\<lparr>status := Ready\<rparr> else p)
                          (players s)\<rparr>)"
    unfolding used_def q_def by (simp only: fillAllSets_unfold Let_def)
  have len: "length (readySets ?s') = length (readySets s)"
    by (simp add: unf fillLoop_length)
  have nth: "readySets ?s' ! k =
      readySets s ! k @ take (4 - length (readySets s ! k)) (drop (room 4 (take k (readySets s))) q)"
    if k: "k < length (readySets s)" for k
  proof (cases "used = []")
    case True
    then have "room 4 (readySets s) = 0 \<or> q = []"
      by (auto simp: used_def)
    then have "4 - length (readySets s ! k) = 0 \<or> q = []"
      using room_nth_le[OF k, of 4] by (metis le_zero_eq)
    then have "take (4 - length (readySets s ! k)) (drop (room 4 (take k (readySets s))) q) = []"
      by (elim disjE) simp_all
    with True show ?thesis
      by (simp add: unf)
  next
    case False
    then have "readySets ?s' = fst (fillLoop 4 (readySets s) q [])"
      by (simp add: unf)
    then show ?thesis
      by (simp only: fillLoop_nth[OF k])
  qed
  have order: "4 \<le> length (readySets ?s' ! j)"
    if "j < k" "k < length (readySets s)" "readySets ?s' ! k \<noteq> readySets s ! k" for j k
  proof -
    from that nth[of k] have "room 4 (take k (readySets s)) < length q"
      by (cases "room 4 (take k (readySets s)) < length q") auto
    moreover have "room 4 (take (Suc j) (readySets s)) \<le> room 4 (take k (readySets s))"
      using that(1) by (intro room_take_mono) simp
    moreover have j: "j < length (readySets s)" using that by simp
    ultimately have "room 4 (take j (readySets s)) + (4 - length (readySets s ! j)) < length q"
      by (simp add: room_take_Suc)
    then show ?thesis using nth[OF j] by simp
  qed
  have pl: "players ?s' =
     map (\<lambda>p. if pid p \<in> set used then p\<lparr>status := Ready\<rparr> else p) (players s)"
    by (cases "used = []") (simp_all add: unf)
  have co: "courts ?s' = courts s"
    by (simp add: unf)
  have noop: "?s' = s"
    if "filter (\<lambda>p. status p = Pool) (players s) = [] \<or> (\<forall>g \<in> set (readySets s). \<not> length g < 4)"
  proof -
    from that have "used = []"
      by (auto simp: used_def q_def selectionQueue_empty_pool room_full)
    then show ?thesis by (simp add: unf)
  qed
  from len nth order pl co noop show ?thesis
    unfolding used_def q_def by blast
qed


text \<open>
  The theorem at \<open>exQueue\<close>: the first group holds \<open>p5\<close> and takes the first three ids of
  the queue, the second group takes the fourth.
\<close>

theorem fillAllSets_distribution_witness:
  "(0 < length (readySets exQueue) \<and> 1 < length (readySets exQueue)) \<and>
   map pid (selectionQueue lexCompare (\<lambda>i. 0) exQueue) = [''p2'', ''p4'', ''p3'', ''p1''] \<and>
   length (readySets (fillAllSets lexCompare (\<lambda>i. 0) exQueue)) = 2 \<and>
   readySets (fillAllSets lexCompare (\<lambda>i. 0) exQueue) ! 0 = [''p5'', ''p2'', ''p4'', ''p3''] \<and>
   readySets (fillAllSets lexCompare (\<lambda>i. 0) exQueue) ! 1 = [''p1''] \<and>
   map status (players (fillAllSets lexCompare (\<lambda>i. 0) exQueue)) =
     [Ready, Ready, Ready, Ready, Ready]"
proof -
  let ?s' = "fillAllSets lexCompare (\<lambda>i. 0) exQueue"
  let ?q = "map pid (selectionQueue lexCompare (\<lambda>i. 0) exQueue)"
  have h: "0 < length (readySets exQueue) \<and> 1 < length (readySets exQueue)"
    by (simp add: exQueue_def)
  have q: "?q = [''p2'', ''p4'', ''p3'', ''p1'']"
    by (simp add: selectionQueue_def exQueue_def sortBy_def comparePlayers_def mkPlayer_def
        lexCompare_def less_char_def)
  from fillAllSets_distribution[of lexCompare "\<lambda>i. 0" exQueue] h
  have l: "length (readySets ?s') = length (readySets exQueue)"
    and g0: "readySets ?s' ! 0 = readySets exQueue ! 0 @
        take (4 - length (readySets exQueue ! 0)) (drop (room 4 (take 0 (readySets exQueue))) ?q)"
    and g1: "readySets ?s' ! 1 = readySets exQueue ! 1 @
        take (4 - length (readySets exQueue ! 1)) (drop (room 4 (take 1 (readySets exQueue))) ?q)"
    and pl: "players ?s' =
        map (\<lambda>p. if pid p \<in> set (take (room 4 (readySets exQueue)) ?q)
                  then p\<lparr>status := Ready\<rparr> else p) (players exQueue)"
    by blast+
  have "length (readySets ?s') = 2"
    unfolding l by (simp add: exQueue_def)
  moreover have "readySets ?s' ! 0 = [''p5'', ''p2'', ''p4'', ''p3'']"
    unfolding g0 q by (simp add: exQueue_def)
  moreover have "readySets ?s' ! 1 = [''p1'']"
    unfolding g1 q by (simp add: exQueue_def)
  moreover have "map status (players ?s') = [Ready, Ready, Ready, Ready, Ready]"
    unfolding pl q by (simp add: exQueue_def mkPlayer_def)
  ultimately show ?thesis using h q by blast
qed

section \<open>Station occupancy\<close>

lemma stationsOk_step:
  "stationsOk s \<Longrightarrow> \<not> deletesOccupant x s \<Longrightarrow> stationsOk (step lc x s)"
proof (cases x)
  case (DeletePlayer i)
  assume a: "stationsOk s" "\<not> deletesOccupant x s"
  with DeletePlayer have "map (\<lambda>c. if i \<in> set (playingIds c)
      then c\<lparr>playingIds := filter (\<lambda>x. x \<noteq> i) (playingIds c)\<rparr> else c) (courts s) = courts s"
    by (intro map_idI) auto
  with a DeletePlayer show ?thesis by (simp add: stationsOk_def deletePlayer_def)
next
  case (FillAllSets rnd)
  assume "stationsOk s"
  then show ?thesis using FillAllSets
    by (auto simp: stationsOk_def fillAllSets_def split: prod.splits)
next
  case (AssignSetToCourt si i now)
  assume "stationsOk s"
  then show ?thesis using AssignSetToCourt
    by (auto simp: stationsOk_def assignSetToCourt_def Let_def)
next
  case (EndMatch i)
  assume "stationsOk s"
  then show ?thesis using EndMatch
    by (auto simp: stationsOk_def endMatch_def Let_def split: option.splits)
qed (auto simp: stationsOk_def confirmAddPlayer_def editName_def editGender_def editSkill_def
    addToReady_def swapReadyWithPool_def Let_def addSet_def removeSet_def addCourt_def
    removeCourt_def sanitize_def split: option.splits)

text \<open>
  Claim C2, as amended. The initial state has no partially occupied station, and from
  any state without one, a sequence of operations that never deletes a participant
  whose id is in the occupancy list of a station leads to a state without one: every
  operation other than such a deletion keeps the length of every occupancy list at 0
  or 4.
\<close>

theorem stationsOk_without_occupant_deletion:
  "stationsOk initState \<and>
   (stationsOk s \<and> noOccupantDeleted lc ops s \<longrightarrow> stationsOk (run lc ops s))"
proof
  show "stationsOk initState" by (simp add: stationsOk_def initState_def)
  show "stationsOk s \<and> noOccupantDeleted lc ops s \<longrightarrow> stationsOk (run lc ops s)"
  proof (induction ops arbitrary: s)
    case Nil
    then show ?case by simp
  next
    case (Cons x xs)
    then show ?case by (auto dest: stationsOk_step)
  qed
qed

text \<open>
  The theorem at a run from the initial state: five participants, an assignment, the
  end of the session and then the deletion of \<open>p2\<close>, who is back in the pool.
\<close>

theorem stationsOk_without_occupant_deletion_witness:
  "noOccupantDeleted lexCompare
     (exFullOps @ [AssignSetToCourt 0 ''c1'' 100, EndMatch ''c1'', DeletePlayer ''p2'']) initState \<and>
   stationsOk (run lexCompare
     (exFullOps @ [AssignSetToCourt 0 ''c1'' 100, EndMatch ''c1'', DeletePlayer ''p2'']) initState)"
proof -
  have h: "noOccupantDeleted lexCompare
     (exFullOps @ [AssignSetToCourt 0 ''c1'' 100, EndMatch ''c1'', DeletePlayer ''p2'']) initState"
    by (simp add: exFullOps_def evals)
  from stationsOk_without_occupant_deletion[of initState lexCompare
      "exFullOps @ [AssignSetToCourt 0 ''c1'' 100, EndMatch ''c1'', DeletePlayer ''p2'']"] h
  show ?thesis by blast
qed

text \<open>
  Claim C2 as stated fails: after the five participants are added and staged and the
  first group is assigned to the station, the deletion of the occupant \<open>p2\<close> leaves the
  station with three occupants.
\<close>

theorem stationsOk_delete_occupant_counterexample:
  "\<not> stationsOk (run lexCompare
     (exFullOps @ [AssignSetToCourt 0 ''c1'' 100, DeletePlayer ''p2'']) initState) \<and>
   map playingIds (courts (run lexCompare
     (exFullOps @ [AssignSetToCourt 0 ''c1'' 100, DeletePlayer ''p2'']) initState)) =
     [[''p1'', ''p3'', ''p4'']]"
  by (simp add: exFullOps_def evals stationsOk_def)

section \<open>Status consistency\<close>

lemma mset_eq_set_distinct:
  "mset xs = mset ys \<Longrightarrow> set xs = set ys \<and> distinct xs = distinct ys"
  by (metis mset_eq_setD mset_eq_imp_distinct_iff)

lemma filter_mem_concat_Nil: "i \<notin> set (concat xss) \<Longrightarrow> filter (\<lambda>g. i \<in> set g) xss = []"
  by (induction xss) auto

lemma count_containing:
  "distinct (concat xss) \<Longrightarrow>
   length (filter (\<lambda>g. i \<in> set g) xss) = (if i \<in> set (concat xss) then 1 else 0)"
proof (induction xss)
  case Nil
  then show ?case by simp
next
  case (Cons g gs)
  show ?case
  proof (cases "i \<in> set g")
    case True
    with Cons.prems have "i \<notin> set (concat gs)" by auto
    with True show ?thesis by (simp add: filter_mem_concat_Nil)
  next
    case False
    with Cons show ?thesis by simp
  qed
qed

lemma idsWith_status:
  assumes "distinct (map pid ps)" "p \<in> set ps"
  shows "pid p \<in> idsWith st ps \<longleftrightarrow> status p = st"
proof
  assume "pid p \<in> idsWith st ps"
  then obtain p' where "p' \<in> set ps" "status p' = st" "pid p' = pid p"
    by (auto simp: idsWith_def)
  with assms have "p' = p"
    by (meson distinct_map inj_onD)
  with \<open>status p' = st\<close> show "status p = st" by simp
next
  assume "status p = st"
  with assms(2) show "pid p \<in> idsWith st ps" by (auto simp: idsWith_def)
qed

lemma idsWith_disjoint:
  assumes "distinct (map pid ps)" "st \<noteq> st'"
  shows "idsWith st ps \<inter> idsWith st' ps = {}"
proof -
  have False if "x \<in> idsWith st ps" "x \<in> idsWith st' ps" for x
  proof -
    from that(1) obtain p where p: "p \<in> set ps" "pid p = x" "status p = st"
      by (auto simp: idsWith_def)
    with that(2) have "pid p \<in> idsWith st' ps" by simp
    with idsWith_status[OF assms(1) p(1), of st'] p(3) assms(2) show False by simp
  qed
  then show ?thesis by blast
qed

lemma idsWith_subset: "idsWith st ps \<subseteq> set (map pid ps)"
  by (auto simp: idsWith_def)

lemma wellFormed_statusConsistent:
  assumes "wellFormed s"
  shows "statusConsistent s"
proof -
  from assms have d: "distinct (map pid (players s))"
    and dg: "distinct (concat (readySets s))"
    and dc: "distinct (concat (map playingIds (courts s)))"
    and g: "set (concat (readySets s)) = idsWith Ready (players s)"
    and c: "set (concat (map playingIds (courts s))) = idsWith Playing (players s)"
    by (simp_all add: wellFormed_def)
  have cc: "courtCount i (courts s) =
      length (filter (\<lambda>g. i \<in> set g) (map playingIds (courts s)))" for i
    by (simp add: courtCount_def filter_map comp_def)
  have "(status p = Ready \<longleftrightarrow> groupCount (pid p) (readySets s) = 1) \<and>
        (status p = Playing \<longleftrightarrow> courtCount (pid p) (courts s) = 1) \<and>
        (status p = Pool \<longleftrightarrow>
           groupCount (pid p) (readySets s) = 0 \<and> courtCount (pid p) (courts s) = 0)"
    if p: "p \<in> set (players s)" for p
  proof -
    have 1: "groupCount (pid p) (readySets s) = (if status p = Ready then 1 else 0)"
      unfolding groupCount_def count_containing[OF dg] g idsWith_status[OF d p] ..
    have 2: "courtCount (pid p) (courts s) = (if status p = Playing then 1 else 0)"
      unfolding cc count_containing[OF dc] c idsWith_status[OF d p] ..
    show ?thesis unfolding 1 2 by (cases "status p") simp_all
  qed
  then show ?thesis unfolding statusConsistent_def by blast
qed

text \<open>Updates of the participants.\<close>

lemma pid_map_upd:
  "(\<And>p. pid (g p) = pid p) \<Longrightarrow> map pid (map (\<lambda>p. if C p then g p else p) ps) = map pid ps"
  by (induction ps) auto

lemma idsWith_Nil: "idsWith st [] = {}"
  by (simp add: idsWith_def)

lemma idsWith_Cons:
  "idsWith st (q # qs) = (if status q = st then insert (pid q) (idsWith st qs) else idsWith st qs)"
  by (auto simp: idsWith_def)

lemma idsWith_map_same:
  "(\<And>p. pid (g p) = pid p \<and> status (g p) = status p) \<Longrightarrow>
   idsWith st (map (\<lambda>p. if C p then g p else p) ps) = idsWith st ps"
  by (induction ps) (simp_all add: idsWith_Nil idsWith_Cons)

lemma idsWith_upd:
  assumes "\<And>p. pid (g p) = pid p" "\<And>p. status (g p) = st"
  shows "idsWith st' (map (\<lambda>p. if pid p \<in> A then g p else p) ps) =
    (if st' = st then idsWith st' ps \<union> (A \<inter> set (map pid ps)) else idsWith st' ps - A)"
proof (induction ps)
  case Nil
  then show ?case by (simp add: idsWith_Nil)
next
  case (Cons p ps)
  show ?case
    unfolding list.map idsWith_Cons Cons.IH using assms by auto
qed

lemma idsWith_upd1:
  assumes "\<And>p. pid (g p) = pid p" "\<And>p. status (g p) = st"
  shows "idsWith st' (map (\<lambda>p. if pid p = i then g p else p) ps) =
    (if st' = st then idsWith st' ps \<union> ({i} \<inter> set (map pid ps)) else idsWith st' ps - {i})"
  using idsWith_upd[of g st st' "{i}" ps, OF assms] by simp

lemma idsWith_filter: "idsWith st (filter (\<lambda>p. pid p \<noteq> i) ps) = idsWith st ps - {i}"
  by (auto simp: idsWith_def)

text \<open>Surgery on the groups.\<close>

lemma mset_concat_update:
  "k < length xss \<Longrightarrow>
   mset (concat (xss[k := ys])) + mset (xss ! k) = mset (concat xss) + mset ys"
proof (induction xss arbitrary: k)
  case Nil
  then show ?case by simp
next
  case (Cons g gs)
  show ?case
  proof (cases k)
    case 0
    then show ?thesis by simp
  next
    case (Suc m)
    with Cons.prems have "m < length gs" by simp
    from Cons.IH[OF this] Suc show ?thesis by (simp add: ac_simps)
  qed
qed

lemma mset_concat_splice1:
  "mset (concat xss) = mset (concat (splice1 xss i) @ setAt xss i)"
proof (cases "i < length xss")
  case True
  then have "concat xss = concat (take i xss) @ xss ! i @ concat (drop (Suc i) xss)"
    by (metis concat.simps(2) concat_append id_take_nth_drop)
  with True show ?thesis by (simp add: splice1_def setAt_def)
next
  case False
  then show ?thesis by (simp add: splice1_def setAt_def)
qed

lemma mset_concat_fillLoop:
  "mset (concat (fst (fillLoop cap sets q used))) =
   mset (concat sets @ take (sum_list (map (\<lambda>g. cap - length g) sets)) q)"
proof (induction sets arbitrary: q used)
  case Nil
  then show ?case by simp
next
  case (Cons g gs)
  have f: "fillLoop cap (g # gs) q used =
     ((g @ take (cap - length g) q)
        # fst (fillLoop cap gs (drop (cap - length g) q) (used @ take (cap - length g) q)),
      snd (fillLoop cap gs (drop (cap - length g) q) (used @ take (cap - length g) q)))"
    by (simp add: fillSet_eq split: prod.splits)
  show ?case unfolding f by (simp add: Cons.IH take_add)
qed

text \<open>Surgery on the stations.\<close>

lemma cid_map_upd:
  "(\<And>c. cid (g c) = cid c) \<Longrightarrow> map cid (map (\<lambda>c. if C c then g c else c) cs) = map cid cs"
  by (induction cs) auto

lemma courts_set_playing:
  assumes "distinct (map cid cs)" "c \<in> set cs" "cid c = i"
  shows "mset (concat (map playingIds
            (map (\<lambda>c. if cid c = i then c\<lparr>playingIds := ids, startedAt := t\<rparr> else c) cs)))
         + mset (playingIds c) = mset (concat (map playingIds cs)) + mset ids"
  using assms
proof (induction cs)
  case Nil
  then show ?case by simp
next
  case (Cons d ds)
  show ?case
  proof (cases "d = c")
    case True
    with Cons.prems have "cid c \<notin> cid ` set ds" by simp
    with Cons.prems(3) have "\<forall>e \<in> set ds. cid e \<noteq> i" by blast
    then have "map (\<lambda>c. if cid c = i then c\<lparr>playingIds := ids, startedAt := t\<rparr> else c) ds = ds"
      by (intro map_idI) auto
    with True Cons.prems show ?thesis by simp
  next
    case False
    with Cons.prems have "c \<in> set ds" "cid d \<noteq> i" "distinct (map cid ds)" by auto
    with Cons.IH Cons.prems(3) show ?thesis by (simp add: ac_simps)
  qed
qed

lemma courts_remove:
  assumes "distinct (map cid cs)" "c \<in> set cs" "cid c = i"
  shows "mset (concat (map playingIds (filter (\<lambda>c. cid c \<noteq> i) cs))) + mset (playingIds c)
         = mset (concat (map playingIds cs))"
  using assms
proof (induction cs)
  case Nil
  then show ?case by simp
next
  case (Cons d ds)
  show ?case
  proof (cases "d = c")
    case True
    with Cons.prems have "cid c \<notin> cid ` set ds" by simp
    with Cons.prems(3) have "\<forall>e \<in> set ds. cid e \<noteq> i" by blast
    then have "filter (\<lambda>c. cid c \<noteq> i) ds = ds" by simp
    with True Cons.prems show ?thesis by simp
  next
    case False
    with Cons.prems have "c \<in> set ds" "cid d \<noteq> i" "distinct (map cid ds)" by auto
    with Cons.IH Cons.prems(3) show ?thesis by (simp add: ac_simps)
  qed
qed

lemma courts_delete:
  "concat (map playingIds (map (\<lambda>c. if i \<in> set (playingIds c)
       then c\<lparr>playingIds := filter (\<lambda>x. x \<noteq> i) (playingIds c)\<rparr> else c) cs))
   = filter (\<lambda>x. x \<noteq> i) (concat (map playingIds cs))"
  by (induction cs) (auto simp: filter_neq_id)

lemma pid_set_status [simp]:
  "pid \<circ> (\<lambda>p. if C p then p\<lparr>status := st\<rparr> else p) = pid"
  by (rule ext) simp

lemma cid_set_playing [simp]:
  "cid \<circ> (\<lambda>c. if C c then c\<lparr>playingIds := ids, startedAt := t\<rparr> else c) = cid"
  by (rule ext) simp

lemma idsWith_set_status:
  "idsWith st' (map (\<lambda>p. if pid p \<in> A then p\<lparr>status := st\<rparr> else p) ps) =
    (if st' = st then idsWith st' ps \<union> (A \<inter> set (map pid ps)) else idsWith st' ps - A)"
  by (rule idsWith_upd) simp_all

lemma idsWith_set_status1:
  "idsWith st' (map (\<lambda>p. if pid p = i then p\<lparr>status := st\<rparr> else p) ps) =
    (if st' = st then idsWith st' ps \<union> ({i} \<inter> set (map pid ps)) else idsWith st' ps - {i})"
  by (rule idsWith_upd1) simp_all

lemma pool_not_elsewhere:
  assumes "distinct (map pid ps)" "p \<in> set ps" "status p = Pool"
  shows "pid p \<notin> idsWith Ready ps" "pid p \<notin> idsWith Playing ps" "pid p \<in> set (map pid ps)"
  using idsWith_status[OF assms(1,2)] assms(2,3) by auto

lemma wellFormed_initState: "wellFormed initState"
  by (simp add: wellFormed_def initState_def idsWith_Nil)

lemma wf_confirmAddPlayer:
  "wellFormed s \<Longrightarrow> i \<notin> set (map pid (players s)) \<Longrightarrow> wellFormed (confirmAddPlayer i nm g sk s)"
  by (auto simp: wellFormed_def confirmAddPlayer_def idsWith_Cons)

lemma wf_players_same:
  assumes "wellFormed s" and g: "\<And>p. pid (g p) = pid p \<and> status (g p) = status p"
  shows "wellFormed (s\<lparr>players := map (\<lambda>p. if C p then g p else p) (players s)\<rparr>)"
proof -
  have 1: "map pid (map (\<lambda>p. if C p then g p else p) (players s)) = map pid (players s)"
    by (rule pid_map_upd) (simp add: g)
  have 2: "idsWith st (map (\<lambda>p. if C p then g p else p) (players s)) = idsWith st (players s)" for st
    by (rule idsWith_map_same) (rule g)
  from assms(1) show ?thesis
    unfolding wellFormed_def by (simp add: 1 2 del: map_map)
qed

lemma wf_editName: "wellFormed s \<Longrightarrow> wellFormed (editName i v s)"
  unfolding editName_def by (rule wf_players_same) simp_all

lemma wf_editGender: "wellFormed s \<Longrightarrow> wellFormed (editGender i v s)"
  unfolding editGender_def by (rule wf_players_same) simp_all

lemma wf_editSkill: "wellFormed s \<Longrightarrow> wellFormed (editSkill i v s)"
  unfolding editSkill_def by (rule wf_players_same) simp_all

lemma set_filter_neq: "set (filter (\<lambda>x. x \<noteq> i) xs) = set xs - {i}"
  by auto

lemma wf_deletePlayer:
  assumes "wellFormed s"
  shows "wellFormed (deletePlayer i s)"
proof -
  have c: "map cid (map (\<lambda>c. if i \<in> set (playingIds c)
       then c\<lparr>playingIds := filter (\<lambda>x. x \<noteq> i) (playingIds c)\<rparr> else c) (courts s)) = map cid (courts s)"
    by (rule cid_map_upd) simp
  have g: "concat (map (filter (\<lambda>x. x \<noteq> i)) (readySets s)) = filter (\<lambda>x. x \<noteq> i) (concat (readySets s))"
    by (simp add: filter_concat)
  from assms show ?thesis
    unfolding wellFormed_def deletePlayer_def
    by (simp add: c g courts_delete distinct_map_filter idsWith_filter set_filter_neq
        del: set_filter map_map)
qed

lemma wf_addToReady:
  assumes wf: "wellFormed s" and off: "\<exists>p \<in> set (players s). pid p = i \<and> status p = Pool"
  shows "wellFormed (addToReady i s)"
proof (cases "findIndex (\<lambda>g. length g < 4) (readySets s)")
  case None
  with wf show ?thesis by (simp add: addToReady_def)
next
  case (Some t)
  then have t: "t < length (readySets s)" by (simp add: findIndex_Some)
  from wf have d: "distinct (map pid (players s))" by (simp add: wellFormed_def)
  from off obtain p where p: "p \<in> set (players s)" "pid p = i" "status p = Pool" by blast
  from pool_not_elsewhere[OF d p(1,3)] p(2)
  have i: "i \<notin> idsWith Ready (players s)" "i \<notin> idsWith Playing (players s)"
    "i \<in> set (map pid (players s))" by simp_all
  from mset_concat_update[OF t, of "readySets s ! t @ [i]"]
  have "mset (concat ((readySets s)[t := readySets s ! t @ [i]])) = mset (i # concat (readySets s))"
    by simp
  from mset_eq_set_distinct[OF this]
  have g: "set (concat ((readySets s)[t := readySets s ! t @ [i]])) = insert i (set (concat (readySets s)))"
    "distinct (concat ((readySets s)[t := readySets s ! t @ [i]])) = distinct (i # concat (readySets s))"
    by simp_all
  from wf i show ?thesis
    unfolding wellFormed_def addToReady_def Some
    by (simp add: g idsWith_set_status1 del: set_concat)
qed

lemma wf_swapReadyWithPool:
  assumes wf: "wellFormed s"
    and off: "\<exists>p \<in> set (players s). pid p = i \<and> status p = Pool"
  shows "wellFormed (swapReadyWithPool si ri i s)"
proof (cases "ri < length (setAt (readySets s) si) \<and> setAt (readySets s) si ! ri \<noteq> []")
  case False
  with wf show ?thesis by (simp add: swapReadyWithPool_def)
next
  case True
  define g where "g = readySets s ! si"
  define out where "out = g ! ri"
  from True have si: "si < length (readySets s)" and ri: "ri < length g"
    by (auto simp: setAt_def g_def split: if_splits)
  then have sa: "setAt (readySets s) si = g" by (simp add: setAt_def g_def)
  from wf have d: "distinct (map pid (players s))"
    and dg: "distinct (concat (readySets s))"
    and R: "set (concat (readySets s)) = idsWith Ready (players s)"
    by (simp_all add: wellFormed_def)
  from off obtain p where p: "p \<in> set (players s)" "pid p = i" "status p = Pool" by blast
  from pool_not_elsewhere[OF d p(1,3)] p(2)
  have i: "i \<notin> idsWith Ready (players s)" "i \<notin> idsWith Playing (players s)"
    "i \<in> set (map pid (players s))" by simp_all
  have og: "out \<in> set g" using ri by (simp add: out_def)
  then have "out \<in> set (concat (readySets s))" using si by (auto simp: g_def)
  then have oR: "out \<in> idsWith Ready (players s)" unfolding R .
  with idsWith_disjoint[OF d, of Ready Playing]
  have oP: "out \<notin> idsWith Playing (players s)" by auto
  from oR i have ne: "i \<noteq> out" by auto
  let ?sets' = "(readySets s)[si := g[ri := i]]"
  define G' where "G' = concat ?sets'"
  define G where "G = concat (readySets s)"
  have "mset (g[ri := i]) + {#out#} = add_mset i (mset g)"
    using ri og by (simp add: mset_update out_def)
  moreover have "mset (concat ?sets') + mset g = mset (concat (readySets s)) + mset (g[ri := i])"
    using mset_concat_update[OF si, of "g[ri := i]"] by (simp add: g_def)
  ultimately have "mset (concat ?sets') + mset g + {#out#} =
      mset (concat (readySets s)) + add_mset i (mset g)"
    by (simp add: ac_simps)
  then have m: "mset (out # G') = mset (i # G)"
    by (simp add: G'_def G_def)
  have iG: "i \<notin> set G" "distinct G" "set G = idsWith Ready (players s)"
    using i(1) dg R by (simp_all add: G_def)
  from mset_eq_set_distinct[OF m] iG
  have s': "insert out (set G') = insert i (idsWith Ready (players s))"
    and d': "out \<notin> set G'" "distinct G'"
    by simp_all
  from s' d'(1) ne have "set G' = insert i (idsWith Ready (players s) - {out})"
    by auto
  with d'(2) have S: "set (concat ?sets') = insert i (idsWith Ready (players s) - {out})"
    "distinct (concat ?sets')"
    by (simp_all add: G'_def)
  have sw: "swapReadyWithPool si ri i s =
      s\<lparr>players := map (\<lambda>p. if pid p = i then p\<lparr>status := Ready\<rparr> else p)
                     (map (\<lambda>p. if pid p = out then p\<lparr>status := Pool\<rparr> else p) (players s)),
        readySets := ?sets'\<rparr>"
    using True ri by (simp add: swapReadyWithPool_def sa mapIdx_update out_def Let_def)
  define ps1 where "ps1 = map (\<lambda>p. if pid p = out then p\<lparr>status := Pool\<rparr> else p) (players s)"
  have p1: "map pid ps1 = map pid (players s)"
    unfolding ps1_def by (rule pid_map_upd) simp
  have r1: "idsWith Ready ps1 = idsWith Ready (players s) - {out}"
    and q1: "idsWith Playing ps1 = idsWith Playing (players s)"
    unfolding ps1_def using oP by (simp_all add: idsWith_set_status1)
  have P3: "map pid (map (\<lambda>p. if pid p = i then p\<lparr>status := Ready\<rparr> else p) ps1) =
      map pid (players s)"
    using p1 pid_map_upd[of "\<lambda>p. p\<lparr>status := Ready\<rparr>" "\<lambda>p. pid p = i" ps1] by simp
  have P1: "idsWith Ready (map (\<lambda>p. if pid p = i then p\<lparr>status := Ready\<rparr> else p) ps1) =
      insert i (idsWith Ready (players s) - {out})"
    using i(3) by (simp add: idsWith_set_status1 r1 p1 del: set_map)
  have P2: "idsWith Playing (map (\<lambda>p. if pid p = i then p\<lparr>status := Ready\<rparr> else p) ps1) =
      idsWith Playing (players s)"
    using i(2) by (simp add: idsWith_set_status1 q1)
  from wf show ?thesis
    unfolding sw wellFormed_def ps1_def[symmetric]
    by (simp add: S P1 P2 P3 del: map_map set_concat)
qed

lemma wf_fillAllSets:
  assumes wf: "wellFormed s"
  shows "wellFormed (fillAllSets lc rnd s)"
proof -
  define q where "q = map pid (selectionQueue lc rnd s)"
  define used where "used = take (room 4 (readySets s)) q"
  from wf have d: "distinct (map pid (players s))"
    and dg: "distinct (concat (readySets s))"
    and R: "set (concat (readySets s)) = idsWith Ready (players s)"
    by (simp_all add: wellFormed_def)
  have unf: "fillAllSets lc rnd s =
     (if used = [] then s
      else s\<lparr>readySets := fst (fillLoop 4 (readySets s) q []),
             players := map (\<lambda>p. if pid p \<in> set used then p\<lparr>status := Ready\<rparr> else p)
                          (players s)\<rparr>)"
    unfolding used_def q_def by (simp only: fillAllSets_unfold Let_def)
  have "mset q = mset (map pid (filter (\<lambda>p. status p = Pool) (players s)))"
    unfolding q_def using mset_selectionQueue[of lc rnd s] by (metis mset_map)
  from mset_eq_set_distinct[OF this] d
  have "set q = idsWith Pool (players s)" "distinct q"
    by (auto simp: idsWith_def distinct_map_filter)
  then have u: "set used \<subseteq> idsWith Pool (players s)" "distinct used"
    unfolding used_def by (auto dest: in_set_takeD)
  from u(1) idsWith_disjoint[OF d, of Pool Ready] idsWith_disjoint[OF d, of Pool Playing]
    idsWith_subset[of Pool "players s"]
  have dis: "set used \<inter> idsWith Ready (players s) = {}"
    "set used \<inter> idsWith Playing (players s) = {}" "set used \<subseteq> set (map pid (players s))"
    by blast+
  have "mset (concat (fst (fillLoop 4 (readySets s) q []))) = mset (concat (readySets s) @ used)"
    unfolding used_def by (rule mset_concat_fillLoop)
  from mset_eq_set_distinct[OF this] dg u(2) dis(1) R
  have g: "set (concat (fst (fillLoop 4 (readySets s) q []))) = idsWith Ready (players s) \<union> set used"
    "distinct (concat (fst (fillLoop 4 (readySets s) q [])))"
    by auto
  have "idsWith Playing (players s) - set used = idsWith Playing (players s)"
    "set used \<inter> set (map pid (players s)) = set used"
    using dis by blast+
  with wf show ?thesis
    unfolding unf wellFormed_def
    by (simp add: g idsWith_set_status del: set_concat set_map)
qed

lemma wf_addSet: "wellFormed s \<Longrightarrow> wellFormed (addSet s)"
  by (simp add: wellFormed_def addSet_def)

lemma wf_addCourt:
  "wellFormed s \<Longrightarrow> i \<notin> set (map cid (courts s)) \<Longrightarrow> wellFormed (addCourt i s)"
  by (simp add: wellFormed_def addCourt_def)

lemma wf_removeSet:
  assumes wf: "wellFormed s"
  shows "wellFormed (removeSet si s)"
proof -
  define current where "current = setAt (readySets s) si"
  define copy where "copy = splice1 (readySets s) si"
  from wf have d: "distinct (map pid (players s))"
    and dg: "distinct (concat (readySets s))"
    and R: "set (concat (readySets s)) = idsWith Ready (players s)"
    by (simp_all add: wellFormed_def)
  have "mset (concat (readySets s)) = mset (concat copy @ current)"
    unfolding copy_def current_def by (rule mset_concat_splice1)
  from mset_eq_set_distinct[OF this] dg R
  have g: "idsWith Ready (players s) = set (concat copy) \<union> set current"
    "distinct (concat copy)" "set (concat copy) \<inter> set current = {}"
    by auto
  with idsWith_disjoint[OF d, of Ready Playing]
  have "idsWith Ready (players s) - set current = set (concat copy)"
    "idsWith Playing (players s) - set current = idsWith Playing (players s)"
    by blast+
  moreover have "concat (if length copy = 0 then copy @ [[]] else copy) = concat copy"
    by simp
  moreover have "current = [] \<Longrightarrow> idsWith Ready (players s) = set (concat copy)"
    using g(1) by simp
  ultimately show ?thesis
    using wf g(2) unfolding removeSet_def wellFormed_def Let_def
    by (simp add: current_def[symmetric] copy_def[symmetric] idsWith_set_status
        del: set_concat)
qed

lemma wf_sanitize:
  assumes wf: "wellFormed s"
  shows "wellFormed (sanitize s)"
proof -
  have "\<forall>g \<in> set (readySets s). \<forall>i \<in> set g. \<exists>p \<in> set (players s). pid p = i"
  proof (intro ballI)
    fix g i assume "g \<in> set (readySets s)" "i \<in> set g"
    then have "i \<in> set (concat (readySets s))" by auto
    with wf have "i \<in> idsWith Ready (players s)" by (simp add: wellFormed_def)
    then show "\<exists>p \<in> set (players s). pid p = i" by (auto simp: idsWith_def)
  qed
  then have "map (filter (\<lambda>i. \<exists>p \<in> set (players s). pid p = i)) (readySets s) = readySets s"
    by (intro map_idI) (simp add: filter_id_conv)
  with wf show ?thesis by (simp add: sanitize_def)
qed

lemma wf_assignSetToCourt:
  assumes wf: "wellFormed s"
    and off: "\<exists>c \<in> set (courts s). cid c = i \<and> playingIds c = []"
  shows "wellFormed (assignSetToCourt si i now s)"
proof (cases "length (setAt (readySets s) si) = 4")
  case False
  with wf show ?thesis by (simp add: assignSetToCourt_def)
next
  case True
  define ids where "ids = setAt (readySets s) si"
  define copy where "copy = splice1 (readySets s) si"
  define cs' where "cs' = map (\<lambda>c. if cid c = i
      then c\<lparr>playingIds := ids, startedAt := Some now\<rparr> else c) (courts s)"
  define ps' where "ps' = map (\<lambda>p. if pid p \<in> set ids then p\<lparr>status := Playing\<rparr> else p) (players s)"
  from wf have d: "distinct (map pid (players s))"
    and dc: "distinct (map cid (courts s))"
    and dg: "distinct (concat (readySets s))"
    and dp: "distinct (concat (map playingIds (courts s)))"
    and R: "set (concat (readySets s)) = idsWith Ready (players s)"
    and P: "set (concat (map playingIds (courts s))) = idsWith Playing (players s)"
    by (simp_all add: wellFormed_def)
  have as: "assignSetToCourt si i now s = s\<lparr>courts := cs', players := ps', readySets := copy @ [[]]\<rparr>"
    using True
    by (simp add: assignSetToCourt_def Let_def shiftSetsAfterAssign_def ids_def copy_def cs'_def
        ps'_def)
  have "mset (concat (readySets s)) = mset (concat copy @ ids)"
    unfolding copy_def ids_def by (rule mset_concat_splice1)
  from mset_eq_set_distinct[OF this] dg R
  have g: "idsWith Ready (players s) = set (concat copy) \<union> set ids"
    "distinct (concat copy)" "distinct ids" "set (concat copy) \<inter> set ids = {}"
    by auto
  from g(1) idsWith_disjoint[OF d, of Ready Playing] idsWith_subset[of Ready "players s"]
  have i1: "set ids \<inter> idsWith Playing (players s) = {}" "set ids \<subseteq> set (map pid (players s))"
    by blast+
  from off obtain c where c: "c \<in> set (courts s)" "cid c = i" "playingIds c = []" by blast
  from courts_set_playing[OF dc c(1,2), where ids = ids and t = "Some now"] c(3)
  have "mset (concat (map playingIds cs')) = mset (concat (map playingIds (courts s)) @ ids)"
    by (simp add: cs'_def)
  from mset_eq_set_distinct[OF this] dp P g(3) i1(1)
  have o: "set (concat (map playingIds cs')) = idsWith Playing (players s) \<union> set ids"
    "distinct (concat (map playingIds cs'))"
    by auto
  have c1: "map cid cs' = map cid (courts s)"
    unfolding cs'_def by (rule cid_map_upd) simp
  have p1: "map pid ps' = map pid (players s)"
    unfolding ps'_def by (rule pid_map_upd) simp
  have r1: "idsWith Ready ps' = set (concat copy)"
    unfolding ps'_def using g(1,4) by (auto simp: idsWith_set_status)
  have q1: "idsWith Playing ps' = idsWith Playing (players s) \<union> set ids"
    unfolding ps'_def using i1(2) by (auto simp: idsWith_set_status)
  show ?thesis
    unfolding as wellFormed_def using d dc g(2) o
    by (simp add: c1 p1 r1 q1 del: set_concat)
qed

text \<open>The end of a session, for \<open>endMatch\<close> and \<open>removeCourt\<close>: the occupants go back to the pool.\<close>

lemma release_occupants:
  assumes wf: "wellFormed s" and c: "c \<in> set (courts s)"
    and m: "mset (concat (map playingIds (courts s))) = mset (concat (map playingIds cs') @ playingIds c)"
    and ps': "ps' = players s \<or>
      ps' = map (\<lambda>p. if pid p \<in> set (playingIds c) then g p else p) (players s)"
    and e: "playingIds c = [] \<or>
      ps' = map (\<lambda>p. if pid p \<in> set (playingIds c) then g p else p) (players s)"
    and g: "\<And>p. pid (g p) = pid p" "\<And>p. status (g p) = Pool"
    and dc: "distinct (map cid cs')"
  shows "wellFormed (s\<lparr>players := ps', courts := cs'\<rparr>)"
proof -
  define ids where "ids = playingIds c"
  from wf have d: "distinct (map pid (players s))"
    and dg: "distinct (concat (readySets s))"
    and dp: "distinct (concat (map playingIds (courts s)))"
    and R: "set (concat (readySets s)) = idsWith Ready (players s)"
    and P: "set (concat (map playingIds (courts s))) = idsWith Playing (players s)"
    by (simp_all add: wellFormed_def)
  from mset_eq_set_distinct[OF m] dp P
  have o: "idsWith Playing (players s) = set (concat (map playingIds cs')) \<union> set ids"
    "distinct (concat (map playingIds cs'))" "set (concat (map playingIds cs')) \<inter> set ids = {}"
    by (auto simp: ids_def)
  from o(1) idsWith_disjoint[OF d, of Playing Ready]
  have i1: "set ids \<inter> idsWith Ready (players s) = {}" by blast
  let ?ps = "map (\<lambda>p. if pid p \<in> set ids then g p else p) (players s)"
  have p1: "map pid ?ps = map pid (players s)"
    by (rule pid_map_upd) (rule g)
  have r1: "idsWith Ready ?ps = idsWith Ready (players s)"
    using i1 idsWith_upd[of g Pool Ready "set ids" "players s", OF g] by auto
  have q1: "idsWith Playing ?ps = set (concat (map playingIds cs'))"
    using o(1,3) idsWith_upd[of g Pool Playing "set ids" "players s", OF g] by auto
  have "map pid ps' = map pid (players s) \<and> idsWith Ready ps' = idsWith Ready (players s) \<and>
      idsWith Playing ps' = set (concat (map playingIds cs'))"
  proof (cases "ps' = ?ps")
    case True
    with p1 r1 q1 show ?thesis by simp
  next
    case False
    with ps' e have "ps' = players s" "ids = []" by (auto simp: ids_def)
    with o(1) show ?thesis by simp
  qed
  with d dc dg R o(2) show ?thesis
    unfolding wellFormed_def by (simp del: set_concat)
qed

lemma wf_endMatch:
  assumes wf: "wellFormed s"
  shows "wellFormed (endMatch i s)"
proof (cases "find (\<lambda>c. cid c = i) (courts s)")
  case None
  with wf show ?thesis by (simp add: endMatch_def)
next
  case (Some c)
  then have c: "c \<in> set (courts s)" "cid c = i"
    by (auto simp: find_Some_iff)
  from wf have dc: "distinct (map cid (courts s))" by (simp add: wellFormed_def)
  define cs' where "cs' = map (\<lambda>c. if cid c = i
      then c\<lparr>playingIds := [], startedAt := None\<rparr> else c) (courts s)"
  define ps' where "ps' = (if length (playingIds c) \<noteq> 0
      then map (\<lambda>p. if pid p \<in> set (playingIds c)
                    then p\<lparr>matches := matches p + 1, status := Pool\<rparr> else p) (players s)
      else players s)"
  have e: "endMatch i s = s\<lparr>players := ps', courts := cs'\<rparr>"
    by (simp add: endMatch_def Some Let_def ps'_def cs'_def)
  have m: "mset (concat (map playingIds (courts s))) = mset (concat (map playingIds cs') @ playingIds c)"
    using courts_set_playing[OF dc c, where ids = "[]" and t = None] by (simp add: cs'_def)
  have c1: "map cid cs' = map cid (courts s)"
    unfolding cs'_def by (rule cid_map_upd) simp
  show ?thesis
    unfolding e
    by (rule release_occupants[OF wf c(1) m, where g = "\<lambda>p. p\<lparr>matches := matches p + 1, status := Pool\<rparr>"])
      (simp_all add: ps'_def c1 dc)
qed

lemma wf_removeCourt:
  assumes wf: "wellFormed s"
  shows "wellFormed (removeCourt i s)"
proof (cases "find (\<lambda>c. cid c = i) (courts s)")
  case None
  then have "filter (\<lambda>c. cid c \<noteq> i) (courts s) = courts s"
    by (auto simp: find_None_iff filter_id_conv)
  with wf None show ?thesis by (simp add: removeCourt_def)
next
  case (Some c)
  then have c: "c \<in> set (courts s)" "cid c = i"
    by (auto simp: find_Some_iff)
  from wf have dc: "distinct (map cid (courts s))" by (simp add: wellFormed_def)
  define cs' where "cs' = filter (\<lambda>c. cid c \<noteq> i) (courts s)"
  define ps' where "ps' = (if length (playingIds c) \<noteq> 0
      then map (\<lambda>p. if pid p \<in> set (playingIds c)
                    then p\<lparr>status := Pool, matches := matches p + 1\<rparr> else p) (players s)
      else players s)"
  have e: "removeCourt i s = s\<lparr>players := ps', courts := cs'\<rparr>"
    by (simp add: removeCourt_def Some ps'_def cs'_def)
  have m: "mset (concat (map playingIds (courts s))) = mset (concat (map playingIds cs') @ playingIds c)"
    using courts_remove[OF dc c] by (simp add: cs'_def)
  have c1: "distinct (map cid cs')"
    unfolding cs'_def using dc by (rule distinct_map_filter)
  show ?thesis
    unfolding e
    by (rule release_occupants[OF wf c(1) m, where g = "\<lambda>p. p\<lparr>status := Pool, matches := matches p + 1\<rparr>"])
      (simp_all add: ps'_def c1)
qed

lemma wellFormed_step:
  "wellFormed s \<Longrightarrow> offered x s \<Longrightarrow> wellFormed (step lc x s)"
  by (cases x)
    (simp_all add: wf_confirmAddPlayer wf_editName wf_editGender wf_editSkill wf_deletePlayer
      wf_addToReady wf_swapReadyWithPool wf_fillAllSets wf_addSet wf_removeSet wf_addCourt
      wf_removeCourt wf_assignSetToCourt wf_endMatch wf_sanitize del: set_map)

lemma wellFormed_run:
  "wellFormed s \<Longrightarrow> allOffered lc ops s \<Longrightarrow> wellFormed (run lc ops s)"
  by (induction ops arbitrary: s) (auto intro: wellFormed_step)

text \<open>
  Claim C3, as amended. In every state reached from the initial state by a sequence of
  operations that the presentation layer offers (\<open>offered\<close>: new ids are fresh, a
  promoted or swapped-in participant has status pool, the target of an assignment is an
  existing idle station), every participant
  has status ready iff the id is in exactly one group, status playing iff the id is in
  the occupancy list of exactly one station, and status pool iff the id is in no group
  and on no station.
\<close>

theorem statusConsistent_offered:
  "allOffered lc ops initState \<Longrightarrow> statusConsistent (run lc ops initState)"
  by (rule wellFormed_statusConsistent) (rule wellFormed_run[OF wellFormed_initState])

text \<open>
  The theorem at a run of seventeen operations that fills the groups, plays and ends a
  session, promotes, swaps, deletes, fills again and removes a group and the station.
\<close>

theorem statusConsistent_offered_witness:
  "allOffered lexCompare exSessionOps initState \<and>
   statusConsistent (run lexCompare exSessionOps initState) \<and>
   map pid (players (run lexCompare exSessionOps initState)) = [''p5'', ''p4'', ''p3'', ''p2''] \<and>
   readySets (run lexCompare exSessionOps initState) = [[''p2'', ''p5'', ''p3'', ''p4'']]"
proof -
  have h: "allOffered lexCompare exSessionOps initState"
    by (simp add: exSessionOps_def evals)
  have "map pid (players (run lexCompare exSessionOps initState)) = [''p5'', ''p4'', ''p3'', ''p2'']"
    "readySets (run lexCompare exSessionOps initState) = [[''p2'', ''p5'', ''p3'', ''p4'']]"
    by (simp_all add: exSessionOps_def evals)
  with statusConsistent_offered[OF h] h show ?thesis by blast
qed

text \<open>
  Claim C3 as stated fails for operations applied to arguments that are not offered:
  promoting \<open>p1\<close> twice puts the id in two slots of the group, and the swap of slot 0
  then sends \<open>p1\<close> back to the pool while the id is still in the group.
\<close>

theorem statusConsistent_double_promote_counterexample:
  "\<not> statusConsistent (run lexCompare exDoubleOps initState) \<and>
   map pid (players (run lexCompare exDoubleOps initState)) = [''p2'', ''p1''] \<and>
   map status (players (run lexCompare exDoubleOps initState)) = [Ready, Pool] \<and>
   readySets (run lexCompare exDoubleOps initState) = [[''p2'', ''p1'']]"
  by (simp add: exDoubleOps_def evals statusConsistent_def groupCount_def courtCount_def)

end
